theory Spec2Isabelle
  imports Main "HOL-Library.Word" "HOL-Library.Char_ord" "HOL-Library.List_Lexorder"
    "HOL-Library.Multiset"
begin

section \<open>The LEMON parser generator: data model\<close>

text \<open>
  The embedding follows \<^verbatim>\<open>tools/lemon/lemon.c\<close>.  Structs are records and enums are
  datatypes.  A pointer into one of the arrays of the generator is the position of the
  object in that array: a \<^verbatim>\<open>struct symbol *\<close> is an index into \<^verbatim>\<open>lemp->symbols\<close>, a
  \<^verbatim>\<open>struct rule *\<close> is the position of the rule in the global rule list, and a null
  pointer is \<open>None\<close>.  A field \<^verbatim>\<open>f\<close> of \<^verbatim>\<open>struct symbol\<close>, \<^verbatim>\<open>rule\<close>, \<^verbatim>\<open>action\<close>,
  \<^verbatim>\<open>config\<close>, \<^verbatim>\<open>state\<close>, \<^verbatim>\<open>lemon\<close> or \<^verbatim>\<open>pstate\<close> is \<open>sym_f\<close>, \<open>rule_f\<close>, \<open>act_f\<close>,
  \<open>cfg_f\<close>, \<open>st_f\<close>, \<open>lem_f\<close> or \<open>ps_f\<close>.  The union \<^verbatim>\<open>x\<close> of an action (\<open>act_x\<close>) holds one pointer, read as a state
  or as a rule according to the type of the action, and is one number here.
  A call of \<^verbatim>\<open>exit(n)\<close> is the value \<open>Inl n\<close>; \<^verbatim>\<open>myassert\<close> calls \<^verbatim>\<open>exit(1)\<close>.
\<close>

datatype symtype = TERMINAL | NONTERMINAL

datatype e_assoc = LEFT | RIGHT | NONE | UNK

datatype e_action =
  SHIFT | ACCEPT | REDUCE | ERROR | CONFLICT | SH_RESOLVED | RD_RESOLVED | NOT_USED

text \<open>The value of an enumerator, for \<^verbatim>\<open>(int)ap1->type - (int)ap2->type\<close>.\<close>

fun e_action_int :: "e_action \<Rightarrow> int" where
  "e_action_int SHIFT = 0"
| "e_action_int ACCEPT = 1"
| "e_action_int REDUCE = 2"
| "e_action_int ERROR = 3"
| "e_action_int CONFLICT = 4"
| "e_action_int SH_RESOLVED = 5"
| "e_action_int RD_RESOLVED = 6"
| "e_action_int NOT_USED = 7"

record symbol =
  sym_name :: string
  sym_index :: int
  sym_type :: symtype
  sym_prec :: int
  sym_assoc :: e_assoc

record rule =
  rule_lhs :: nat
  rule_rhs :: "nat list"
  rule_ruleline :: int
  rule_line :: int
  rule_precsym :: "nat option"
  rule_index :: int

record action =
  act_sp :: nat
  act_type :: e_action
  act_x :: nat

record lemon =
  lem_symbols :: "symbol list"
  lem_rule :: "rule list"
  lem_nsymbol :: int
  lem_nterminal :: int
  lem_errorcnt :: int
  lem_nconflict :: int
  lem_errsym :: "nat option"

section \<open>Conflict resolution\<close>

text \<open>
  \<^verbatim>\<open>resolve_conflict\<close> changes the type of one of the two actions and returns the number
  of conflicts it could not resolve.  The result is the pair of actions after the call
  and the returned count.  Its two assertions fail when the actions have different
  lookaheads, and when a tie of precedences meets an associativity that is neither
  \<^verbatim>\<open>RIGHT\<close>, \<^verbatim>\<open>LEFT\<close> nor \<^verbatim>\<open>NONE\<close>.
\<close>

definition resolve_conflict ::
  "lemon \<Rightarrow> action \<Rightarrow> action \<Rightarrow> nat option \<Rightarrow> int + (action \<times> action \<times> int)" where
  "resolve_conflict lemp apx apy errsym_arg =
    (if act_sp apx \<noteq> act_sp apy then Inl 1
     else if act_type apx = SHIFT \<and> act_type apy = REDUCE then
       (let spx = lem_symbols lemp ! act_sp apx;
            spy = rule_precsym (lem_rule lemp ! act_x apy)
        in if spy = None \<or> sym_prec spx < 0 \<or> sym_prec (lem_symbols lemp ! the spy) < 0 then
             Inr (apx, apy\<lparr>act_type := CONFLICT\<rparr>, 1)
           else if sym_prec spx > sym_prec (lem_symbols lemp ! the spy) then
             Inr (apx, apy\<lparr>act_type := RD_RESOLVED\<rparr>, 0)
           else if sym_prec spx < sym_prec (lem_symbols lemp ! the spy) then
             Inr (apx\<lparr>act_type := SH_RESOLVED\<rparr>, apy, 0)
           else if sym_prec spx = sym_prec (lem_symbols lemp ! the spy) \<and> sym_assoc spx = RIGHT then
             Inr (apx, apy\<lparr>act_type := RD_RESOLVED\<rparr>, 0)
           else if sym_prec spx = sym_prec (lem_symbols lemp ! the spy) \<and> sym_assoc spx = LEFT then
             Inr (apx\<lparr>act_type := SH_RESOLVED\<rparr>, apy, 0)
           else if \<not> (sym_prec spx = sym_prec (lem_symbols lemp ! the spy) \<and> sym_assoc spx = NONE) then
             Inl 1
           else Inr (apx, apy\<lparr>act_type := CONFLICT\<rparr>, 1))
     else if act_type apx = REDUCE \<and> act_type apy = REDUCE then
       (let spx = rule_precsym (lem_rule lemp ! act_x apx);
            spy = rule_precsym (lem_rule lemp ! act_x apy)
        in if spx = None \<or> spy = None \<or> sym_prec (lem_symbols lemp ! the spx) < 0 \<or>
              sym_prec (lem_symbols lemp ! the spy) < 0 \<or>
              sym_prec (lem_symbols lemp ! the spx) = sym_prec (lem_symbols lemp ! the spy) then
             Inr (apx, apy\<lparr>act_type := CONFLICT\<rparr>, 1)
           else if sym_prec (lem_symbols lemp ! the spx) > sym_prec (lem_symbols lemp ! the spy) then
             Inr (apx, apy\<lparr>act_type := RD_RESOLVED\<rparr>, 0)
           else if sym_prec (lem_symbols lemp ! the spx) < sym_prec (lem_symbols lemp ! the spy) then
             Inr (apx\<lparr>act_type := RD_RESOLVED\<rparr>, apy, 0)
           else Inr (apx, apy, 0))
     else Inr (apx, apy, 0))"

text \<open>
  The statement of the conflict loop of \<^verbatim>\<open>FindActions\<close>:
  \<^verbatim>\<open>lemp->nconflict += resolve_conflict(ap,nap,lemp->errsym);\<close>
\<close>

definition FindActions_resolve ::
  "lemon \<Rightarrow> action \<Rightarrow> action \<Rightarrow> int + (lemon \<times> action \<times> action)" where
  "FindActions_resolve lemp ap nap =
    (case resolve_conflict lemp ap nap (lem_errsym lemp) of
       Inl n \<Rightarrow> Inl n
     | Inr (ap', nap', errcnt) \<Rightarrow> Inr (lemp\<lparr>lem_nconflict := lem_nconflict lemp + errcnt\<rparr>, ap', nap'))"


text \<open>
  Readings of the heap used to state the cases: the precedence and associativity of the
  lookahead symbol of an action, and the precedence symbol of the rule of a reduce
  action with its precedence.
\<close>

definition shift_prec :: "lemon \<Rightarrow> action \<Rightarrow> int" where
  "shift_prec lemp ap = sym_prec (lem_symbols lemp ! act_sp ap)"

definition shift_assoc :: "lemon \<Rightarrow> action \<Rightarrow> e_assoc" where
  "shift_assoc lemp ap = sym_assoc (lem_symbols lemp ! act_sp ap)"

definition reduce_precsym :: "lemon \<Rightarrow> action \<Rightarrow> nat option" where
  "reduce_precsym lemp ap = rule_precsym (lem_rule lemp ! act_x ap)"

definition reduce_prec :: "lemon \<Rightarrow> action \<Rightarrow> int" where
  "reduce_prec lemp ap = sym_prec (lem_symbols lemp ! the (rule_precsym (lem_rule lemp ! act_x ap)))"

definition counted :: "lemon \<Rightarrow> lemon" where
  "counted lemp = lemp\<lparr>lem_nconflict := lem_nconflict lemp + 1\<rparr>"

subsection \<open>A grammar to evaluate on\<close>

text \<open>
  The grammar \<^verbatim>\<open>%left PLUS.  %right POW.  %nonassoc EQ.
  expr ::= expr PLUS expr.  expr ::= expr POW expr.  expr ::= expr EQ expr.
  expr ::= INT.  expr ::= MINUS expr. [POW]\<close> after the symbols are sorted and the rule
  precedences are found.  \<^verbatim>\<open>INT\<close> and \<^verbatim>\<open>MINUS\<close> have no precedence.
\<close>

definition mk_symbol :: "string \<Rightarrow> int \<Rightarrow> symtype \<Rightarrow> int \<Rightarrow> e_assoc \<Rightarrow> symbol" where
  "mk_symbol n i t p a = \<lparr>sym_name = n, sym_index = i, sym_type = t, sym_prec = p, sym_assoc = a\<rparr>"

definition mk_rule :: "nat \<Rightarrow> nat list \<Rightarrow> nat option \<Rightarrow> int \<Rightarrow> rule" where
  "mk_rule l r p i = \<lparr>rule_lhs = l, rule_rhs = r, rule_ruleline = 1, rule_line = 0, rule_precsym = p,
      rule_index = i\<rparr>"

definition expr_lemon :: lemon where
  "expr_lemon =
    \<lparr>lem_symbols =
       [mk_symbol ''$'' 0 NONTERMINAL (- 1) UNK,
        mk_symbol ''EQ'' 1 TERMINAL 3 NONE,
        mk_symbol ''INT'' 2 TERMINAL (- 1) UNK,
        mk_symbol ''MINUS'' 3 TERMINAL (- 1) UNK,
        mk_symbol ''PLUS'' 4 TERMINAL 1 LEFT,
        mk_symbol ''POW'' 5 TERMINAL 2 RIGHT,
        mk_symbol ''error'' 6 NONTERMINAL (- 1) UNK,
        mk_symbol ''expr'' 7 NONTERMINAL (- 1) UNK,
        mk_symbol ''{default}'' 8 NONTERMINAL (- 1) UNK],
     lem_rule =
       [mk_rule 7 [7, 4, 7] (Some 4) 0,
        mk_rule 7 [7, 5, 7] (Some 5) 1,
        mk_rule 7 [7, 1, 7] (Some 1) 2,
        mk_rule 7 [2] None 3,
        mk_rule 7 [3, 7] (Some 5) 4],
     lem_nsymbol = 8, lem_nterminal = 6, lem_errorcnt = 0, lem_nconflict = 0,
     lem_errsym = Some 6\<rparr>"

definition mk_action :: "nat \<Rightarrow> e_action \<Rightarrow> nat \<Rightarrow> action" where
  "mk_action s t p = \<lparr>act_sp = s, act_type = t, act_x = p\<rparr>"

lemmas expr_lemon_defs =
  expr_lemon_def mk_symbol_def mk_rule_def mk_action_def shift_prec_def shift_assoc_def
  reduce_precsym_def reduce_prec_def counted_def FindActions_resolve_def
  resolve_conflict_def

subsection \<open>Shift against reduce\<close>

text \<open>
  One execution of the statement on an action that is a \<^verbatim>\<open>SHIFT\<close> when the call is made
  and a \<^verbatim>\<open>REDUCE\<close> with the same lookahead: without a precedence symbol on the rule, or
  with an undefined precedence on either side, the reduce becomes \<^verbatim>\<open>CONFLICT\<close> and
  \<^verbatim>\<open>nconflict\<close> grows by one; otherwise a strictly greater precedence of the lookahead
  makes the reduce \<^verbatim>\<open>RD_RESOLVED\<close>, a strictly smaller one makes the shift
  \<^verbatim>\<open>SH_RESOLVED\<close>, and on a tie \<^verbatim>\<open>RIGHT\<close> makes the reduce \<^verbatim>\<open>RD_RESOLVED\<close>, \<^verbatim>\<open>LEFT\<close>
  makes the shift \<^verbatim>\<open>SH_RESOLVED\<close>, and \<^verbatim>\<open>NONE\<close> makes the reduce \<^verbatim>\<open>CONFLICT\<close> and
  counts it.  Which pairs of a state the loops of \<^verbatim>\<open>FindActions\<close> hand to the statement,
  and with which types, is the matter of the section on the conflict loop.
\<close>

theorem resolve_conflict_shift_reduce:
  assumes "act_sp apx = act_sp apy" and "act_type apx = SHIFT" and "act_type apy = REDUCE"
  shows "(reduce_precsym lemp apy = None \<or> shift_prec lemp apx < 0 \<or> reduce_prec lemp apy < 0
            \<longrightarrow> FindActions_resolve lemp apx apy
                  = Inr (counted lemp, apx, apy\<lparr>act_type := CONFLICT\<rparr>))
       \<and> (reduce_precsym lemp apy \<noteq> None \<and> 0 \<le> shift_prec lemp apx \<and> 0 \<le> reduce_prec lemp apy
            \<longrightarrow>
            (shift_prec lemp apx > reduce_prec lemp apy
               \<longrightarrow> FindActions_resolve lemp apx apy
                     = Inr (lemp, apx, apy\<lparr>act_type := RD_RESOLVED\<rparr>))
          \<and> (shift_prec lemp apx < reduce_prec lemp apy
               \<longrightarrow> FindActions_resolve lemp apx apy
                     = Inr (lemp, apx\<lparr>act_type := SH_RESOLVED\<rparr>, apy))
          \<and> (shift_prec lemp apx = reduce_prec lemp apy \<and> shift_assoc lemp apx = RIGHT
               \<longrightarrow> FindActions_resolve lemp apx apy
                     = Inr (lemp, apx, apy\<lparr>act_type := RD_RESOLVED\<rparr>))
          \<and> (shift_prec lemp apx = reduce_prec lemp apy \<and> shift_assoc lemp apx = LEFT
               \<longrightarrow> FindActions_resolve lemp apx apy
                     = Inr (lemp, apx\<lparr>act_type := SH_RESOLVED\<rparr>, apy))
          \<and> (shift_prec lemp apx = reduce_prec lemp apy \<and> shift_assoc lemp apx = NONE
               \<longrightarrow> FindActions_resolve lemp apx apy
                     = Inr (counted lemp, apx, apy\<lparr>act_type := CONFLICT\<rparr>)))"
  using assms
  by (auto simp add: FindActions_resolve_def resolve_conflict_def shift_prec_def
      reduce_precsym_def reduce_prec_def shift_assoc_def counted_def Let_def)

text \<open>
  The theorem at four pairs of the grammar above: a shift on \<^verbatim>\<open>PLUS\<close> against the
  reduce by \<^verbatim>\<open>expr ::= INT\<close> (no precedence symbol), against
  \<^verbatim>\<open>expr ::= expr PLUS expr\<close> (tie, left), against \<^verbatim>\<open>expr ::= expr POW expr\<close>
  (smaller), and a shift on \<^verbatim>\<open>EQ\<close> against \<^verbatim>\<open>expr ::= expr EQ expr\<close> (tie, none).
\<close>

theorem resolve_conflict_shift_reduce_witness:
  "FindActions_resolve expr_lemon (mk_action 4 SHIFT 9) (mk_action 4 REDUCE 3)
     = Inr (counted expr_lemon, mk_action 4 SHIFT 9, mk_action 4 CONFLICT 3)
   \<and> FindActions_resolve expr_lemon (mk_action 4 SHIFT 9) (mk_action 4 REDUCE 0)
     = Inr (expr_lemon, mk_action 4 SH_RESOLVED 9, mk_action 4 REDUCE 0)
   \<and> FindActions_resolve expr_lemon (mk_action 4 SHIFT 9) (mk_action 4 REDUCE 1)
     = Inr (expr_lemon, mk_action 4 SH_RESOLVED 9, mk_action 4 REDUCE 1)
   \<and> FindActions_resolve expr_lemon (mk_action 1 SHIFT 9) (mk_action 1 REDUCE 2)
     = Inr (counted expr_lemon, mk_action 1 SHIFT 9, mk_action 1 CONFLICT 2)"
proof -
  have types: "act_sp (mk_action 4 SHIFT 9) = act_sp (mk_action 4 REDUCE 3)"
    "act_sp (mk_action 4 SHIFT 9) = act_sp (mk_action 4 REDUCE 0)"
    "act_sp (mk_action 4 SHIFT 9) = act_sp (mk_action 4 REDUCE 1)"
    "act_sp (mk_action 1 SHIFT 9) = act_sp (mk_action 1 REDUCE 2)"
    "\<And>s p. act_type (mk_action s SHIFT p) = SHIFT"
    "\<And>s p. act_type (mk_action s REDUCE p) = REDUCE"
    by (simp_all add: mk_action_def)
  have a: "reduce_precsym expr_lemon (mk_action 4 REDUCE 3) = None"
    by (simp add: expr_lemon_defs)
  have b: "reduce_precsym expr_lemon (mk_action 4 REDUCE 0) \<noteq> None"
    "0 \<le> shift_prec expr_lemon (mk_action 4 SHIFT 9)"
    "0 \<le> reduce_prec expr_lemon (mk_action 4 REDUCE 0)"
    "shift_prec expr_lemon (mk_action 4 SHIFT 9) = reduce_prec expr_lemon (mk_action 4 REDUCE 0)"
    "shift_assoc expr_lemon (mk_action 4 SHIFT 9) = LEFT"
    by (simp_all add: expr_lemon_defs)
  have c: "reduce_precsym expr_lemon (mk_action 4 REDUCE 1) \<noteq> None"
    "0 \<le> reduce_prec expr_lemon (mk_action 4 REDUCE 1)"
    "shift_prec expr_lemon (mk_action 4 SHIFT 9) < reduce_prec expr_lemon (mk_action 4 REDUCE 1)"
    by (simp_all add: expr_lemon_defs)
  have d: "reduce_precsym expr_lemon (mk_action 1 REDUCE 2) \<noteq> None"
    "0 \<le> shift_prec expr_lemon (mk_action 1 SHIFT 9)"
    "0 \<le> reduce_prec expr_lemon (mk_action 1 REDUCE 2)"
    "shift_prec expr_lemon (mk_action 1 SHIFT 9) = reduce_prec expr_lemon (mk_action 1 REDUCE 2)"
    "shift_assoc expr_lemon (mk_action 1 SHIFT 9) = NONE"
    by (simp_all add: expr_lemon_defs)
  note t = resolve_conflict_shift_reduce [where lemp = expr_lemon]
  have "FindActions_resolve expr_lemon (mk_action 4 SHIFT 9) (mk_action 4 REDUCE 3)
     = Inr (counted expr_lemon, mk_action 4 SHIFT 9, (mk_action 4 REDUCE 3)\<lparr>act_type := CONFLICT\<rparr>)"
    using t [OF types(1) types(5) types(6)] a by blast
  moreover have "FindActions_resolve expr_lemon (mk_action 4 SHIFT 9) (mk_action 4 REDUCE 0)
     = Inr (expr_lemon, (mk_action 4 SHIFT 9)\<lparr>act_type := SH_RESOLVED\<rparr>, mk_action 4 REDUCE 0)"
    using t [OF types(2) types(5) types(6)] b by blast
  moreover have "FindActions_resolve expr_lemon (mk_action 4 SHIFT 9) (mk_action 4 REDUCE 1)
     = Inr (expr_lemon, (mk_action 4 SHIFT 9)\<lparr>act_type := SH_RESOLVED\<rparr>, mk_action 4 REDUCE 1)"
    using t [OF types(3) types(5) types(6)] b(2) c by blast
  moreover have "FindActions_resolve expr_lemon (mk_action 1 SHIFT 9) (mk_action 1 REDUCE 2)
     = Inr (counted expr_lemon, mk_action 1 SHIFT 9, (mk_action 1 REDUCE 2)\<lparr>act_type := CONFLICT\<rparr>)"
    using t [OF types(4) types(5) types(6)] d by blast
  ultimately show ?thesis
    by (simp add: mk_action_def)
qed

subsection \<open>Reduce against reduce\<close>

text \<open>
  One execution of the statement on two actions that are both \<^verbatim>\<open>REDUCE\<close> when the call is
  made, with the same lookahead: if a rule has no precedence symbol, or a precedence
  symbol has no precedence, or the two precedences are equal, the second action becomes
  \<^verbatim>\<open>CONFLICT\<close> and \<^verbatim>\<open>nconflict\<close> grows by one; otherwise the action of the rule with the
  lower precedence becomes \<^verbatim>\<open>RD_RESOLVED\<close>, the other one is left as it is, and
  nothing is counted.
\<close>

theorem resolve_conflict_reduce_reduce:
  assumes "act_sp apx = act_sp apy" and "act_type apx = REDUCE" and "act_type apy = REDUCE"
  shows "(reduce_precsym lemp apx = None \<or> reduce_precsym lemp apy = None
          \<or> reduce_prec lemp apx < 0 \<or> reduce_prec lemp apy < 0
          \<or> reduce_prec lemp apx = reduce_prec lemp apy
            \<longrightarrow> FindActions_resolve lemp apx apy
                  = Inr (counted lemp, apx, apy\<lparr>act_type := CONFLICT\<rparr>))
       \<and> (reduce_precsym lemp apx \<noteq> None \<and> reduce_precsym lemp apy \<noteq> None
          \<and> 0 \<le> reduce_prec lemp apx \<and> 0 \<le> reduce_prec lemp apy
            \<longrightarrow>
            (reduce_prec lemp apx > reduce_prec lemp apy
               \<longrightarrow> FindActions_resolve lemp apx apy
                     = Inr (lemp, apx, apy\<lparr>act_type := RD_RESOLVED\<rparr>))
          \<and> (reduce_prec lemp apx < reduce_prec lemp apy
               \<longrightarrow> FindActions_resolve lemp apx apy
                     = Inr (lemp, apx\<lparr>act_type := RD_RESOLVED\<rparr>, apy)))"
  using assms
  by (auto simp add: FindActions_resolve_def resolve_conflict_def
      reduce_precsym_def reduce_prec_def counted_def Let_def)

text \<open>
  The theorem at three pairs on the lookahead \<^verbatim>\<open>EQ\<close>: the rule of \<^verbatim>\<open>PLUS\<close> against
  the rule \<^verbatim>\<open>expr ::= INT\<close> without precedence symbol, against the rule of \<^verbatim>\<open>POW\<close>
  (lower against higher), and the rule of \<^verbatim>\<open>POW\<close> against \<^verbatim>\<open>expr ::= MINUS expr\<close>
  marked \<^verbatim>\<open>[POW]\<close> (equal).
\<close>

theorem resolve_conflict_reduce_reduce_witness:
  "FindActions_resolve expr_lemon (mk_action 1 REDUCE 0) (mk_action 1 REDUCE 3)
     = Inr (counted expr_lemon, mk_action 1 REDUCE 0, mk_action 1 CONFLICT 3)
   \<and> FindActions_resolve expr_lemon (mk_action 1 REDUCE 0) (mk_action 1 REDUCE 1)
     = Inr (expr_lemon, mk_action 1 RD_RESOLVED 0, mk_action 1 REDUCE 1)
   \<and> FindActions_resolve expr_lemon (mk_action 1 REDUCE 1) (mk_action 1 REDUCE 4)
     = Inr (counted expr_lemon, mk_action 1 REDUCE 1, mk_action 1 CONFLICT 4)"
proof -
  have types: "\<And>p q. act_sp (mk_action 1 REDUCE p) = act_sp (mk_action 1 REDUCE q)"
    "\<And>s p. act_type (mk_action s REDUCE p) = REDUCE"
    by (simp_all add: mk_action_def)
  have a: "reduce_precsym expr_lemon (mk_action 1 REDUCE 3) = None"
    by (simp add: expr_lemon_defs)
  have b: "reduce_precsym expr_lemon (mk_action 1 REDUCE 0) \<noteq> None"
    "reduce_precsym expr_lemon (mk_action 1 REDUCE 1) \<noteq> None"
    "0 \<le> reduce_prec expr_lemon (mk_action 1 REDUCE 0)"
    "0 \<le> reduce_prec expr_lemon (mk_action 1 REDUCE 1)"
    "reduce_prec expr_lemon (mk_action 1 REDUCE 0) < reduce_prec expr_lemon (mk_action 1 REDUCE 1)"
    by (simp_all add: expr_lemon_defs)
  have c: "reduce_prec expr_lemon (mk_action 1 REDUCE 1) = reduce_prec expr_lemon (mk_action 1 REDUCE 4)"
    by (simp add: expr_lemon_defs)
  note t = resolve_conflict_reduce_reduce [where lemp = expr_lemon, OF types(1) types(2) types(2)]
  have "FindActions_resolve expr_lemon (mk_action 1 REDUCE 0) (mk_action 1 REDUCE 3)
     = Inr (counted expr_lemon, mk_action 1 REDUCE 0, (mk_action 1 REDUCE 3)\<lparr>act_type := CONFLICT\<rparr>)"
    using t [of 0 3] a by blast
  moreover have "FindActions_resolve expr_lemon (mk_action 1 REDUCE 0) (mk_action 1 REDUCE 1)
     = Inr (expr_lemon, (mk_action 1 REDUCE 0)\<lparr>act_type := RD_RESOLVED\<rparr>, mk_action 1 REDUCE 1)"
    using t [of 0 1] b by blast
  moreover have "FindActions_resolve expr_lemon (mk_action 1 REDUCE 1) (mk_action 1 REDUCE 4)
     = Inr (counted expr_lemon, mk_action 1 REDUCE 1, (mk_action 1 REDUCE 4)\<lparr>act_type := CONFLICT\<rparr>)"
    using t [of 1 4] c by blast
  ultimately show ?thesis
    by (simp add: mk_action_def)
qed


section \<open>Diagnostics\<close>

text \<open>
  \<^verbatim>\<open>ErrorMsg\<close> formats a diagnostic, cuts it into lines and prints each line behind a
  prefix.  What a run prints is a list of writes, each to one of the two streams.  A C
  string ends at its first NUL: \<open>char_at s i\<close> is the character at \<open>i\<close>, and the
  terminating NUL at the end of the text.
\<close>

datatype stream = Stdout | Stderr

type_synonym writes = "(stream \<times> string) list"

definition char_at :: "string \<Rightarrow> nat \<Rightarrow> char" where
  "char_at s i = (if i < length s then s ! i else CHR 0x00)"

definition c_string :: "string \<Rightarrow> string" where
  "c_string s = takeWhile (\<lambda>c. c \<noteq> CHR 0x00) s"

text \<open>
  \<^verbatim>\<open>findbreak(&errmsg[base], mn, mx)\<close>: the loop over \<^verbatim>\<open>i\<close> with the buffer it
  rewrites (a tab and a newline become a space) and the spot found so far.
\<close>

function findbreak_loop :: "string \<Rightarrow> nat \<Rightarrow> nat \<Rightarrow> nat \<Rightarrow> int \<Rightarrow> string \<times> nat" where
  "findbreak_loop msg base i spot mx =
    (if \<not> int i \<le> mx then (msg, spot)
     else
       let c = char_at msg (base + i);
           msg1 = (if c = CHR 0x09 then msg[base + i := CHR '' ''] else msg)
       in if c = CHR 0x0A then (msg1[base + i := CHR '' ''], i)
          else if c = CHR 0x00 then (msg1, i)
          else
            let spot1 = (if c = CHR ''-'' \<and> int i < mx - 1 then i + 1 else spot);
                spot2 = (if c = CHR '' '' then i else spot1)
            in findbreak_loop msg1 base (i + 1) spot2 mx)"
  by pat_completeness auto
termination
  by (relation "measure (\<lambda>(msg, base, i, spot, mx). nat (mx + 1 - int i))") auto

declare findbreak_loop.simps [simp del]

definition findbreak :: "string \<Rightarrow> nat \<Rightarrow> nat \<Rightarrow> int \<Rightarrow> string \<times> nat" where
  "findbreak msg base mn mx = findbreak_loop msg base mn mn mx"

text \<open>\<^verbatim>\<open>while( errmsg[restart]==' ' ) restart++;\<close>\<close>

function skip_spaces :: "string \<Rightarrow> nat \<Rightarrow> nat" where
  "skip_spaces errmsg restart =
    (if char_at errmsg restart = CHR '' '' then skip_spaces errmsg (restart + 1) else restart)"
  by pat_completeness auto
termination
  by (relation "measure (\<lambda>(errmsg, restart). length errmsg - restart)")
    (auto simp add: char_at_def split: if_splits)

declare skip_spaces.simps [simp del]

text \<open>The digits that \<^verbatim>\<open>%d\<close> prints for a positive number.\<close>

function show_nat :: "nat \<Rightarrow> string" where
  "show_nat n =
    (if n < 10 then [char_of (48 + n)] else show_nat (n div 10) @ [char_of (48 + n mod 10)])"
  by pat_completeness auto
termination
  by (relation "measure id") auto

declare show_nat.simps [simp del]

definition ERRMSGSIZE :: nat where
  "ERRMSGSIZE = 10000"

definition LINEWIDTH :: int where
  "LINEWIDTH = 79"

definition PREFIXLIMIT :: nat where
  "PREFIXLIMIT = 30"

text \<open>
  \<^verbatim>\<open>sprintf(prefix,"%.*s:%d: ",PREFIXLIMIT-10,filename,lineno)\<close>, or
  \<^verbatim>\<open>sprintf(prefix,"%.*s: ",PREFIXLIMIT-10,filename)\<close> when \<^verbatim>\<open>lineno\<close> is not positive.
\<close>

definition ErrorMsg_prefix :: "string \<Rightarrow> int \<Rightarrow> string" where
  "ErrorMsg_prefix filename lineno =
    (if lineno > 0 then
       take (PREFIXLIMIT - 10) (c_string filename) @ '':'' @ show_nat (nat lineno) @ '': ''
     else take (PREFIXLIMIT - 10) (c_string filename) @ '': '')"

text \<open>Trailing newlines are removed from the formatted message.\<close>

definition strip_newlines :: "string \<Rightarrow> string" where
  "strip_newlines errmsg = rev (dropWhile (\<lambda>c. c = CHR 0x0A) (rev errmsg))"

text \<open>
  The printing loop \<^verbatim>\<open>while( errmsg[base]!=0 )\<close>.  Nothing bounds the number of its
  iterations, so it runs on fuel: the result is what was written within \<open>fuel\<close>
  iterations, and whether the loop was left within them.
\<close>

fun ErrorMsg_loop :: "nat \<Rightarrow> string \<Rightarrow> int \<Rightarrow> string \<Rightarrow> nat \<Rightarrow> writes \<times> bool" where
  "ErrorMsg_loop 0 prefix availablewidth errmsg base = ([], False)"
| "ErrorMsg_loop (Suc fuel) prefix availablewidth errmsg base =
    (if char_at errmsg base = CHR 0x00 then ([], True)
     else
       case findbreak errmsg base 0 availablewidth of
         (errmsg', end) \<Rightarrow>
           let restart = skip_spaces errmsg' (base + end);
               w = (Stdout, prefix @ take end (drop base errmsg') @ [CHR 0x0A])
           in case ErrorMsg_loop fuel prefix availablewidth errmsg' restart of
                (ws, returned) \<Rightarrow> (w # ws, returned))"

text \<open>
  \<^verbatim>\<open>ErrorMsg(filename, lineno, format, ...)\<close>, given the text that \<^verbatim>\<open>vsprintf\<close> makes of
  the format and its arguments.
\<close>

definition ErrorMsg :: "nat \<Rightarrow> string \<Rightarrow> int \<Rightarrow> string \<Rightarrow> writes \<times> bool" where
  "ErrorMsg fuel filename lineno message =
    (let prefix = ErrorMsg_prefix filename lineno;
         availablewidth = LINEWIDTH - int (length prefix);
         errmsg = strip_newlines (c_string message)
     in ErrorMsg_loop fuel prefix availablewidth errmsg 0)"


subsection \<open>The wrapping of a message, as a specification\<close>

text \<open>
  The definitions of this subsection are not taken from the code: they say, position
  by position, where a message is cut into lines, and \<^verbatim>\<open>findbreak\<close> and the loop of
  \<^verbatim>\<open>ErrorMsg\<close> are compared with them below.
\<close>

text \<open>
  The end of the text within the window of \<open>width + 1\<close> characters at \<open>base\<close>: the
  first position of the window that holds a newline or the end of the message.
\<close>

definition text_end :: "string \<Rightarrow> nat \<Rightarrow> int \<Rightarrow> nat option" where
  "text_end msg base width =
    find (\<lambda>i. char_at msg (base + i) = CHR 0x0A \<or> char_at msg (base + i) = CHR 0x00)
      [0 ..< nat (width + 1)]"

text \<open>
  The places of the window where a line may end: at a space, and just behind a hyphen
  that is at least two characters before the last position of the window.
\<close>

definition break_places :: "string \<Rightarrow> nat \<Rightarrow> int \<Rightarrow> nat list" where
  "break_places msg base width =
    filter (\<lambda>i. char_at msg (base + i) = CHR '' '') [0 ..< nat (width + 1)]
    @ map Suc (filter (\<lambda>i. char_at msg (base + i) = CHR ''-'') [0 ..< nat (width - 1)])"

text \<open>
  Where the line ends: at the end of the text when the window holds one, else at the
  last place of the window where a line may end, else at position 0.
\<close>

definition line_break :: "string \<Rightarrow> nat \<Rightarrow> int \<Rightarrow> nat" where
  "line_break msg base width =
    (case text_end msg base width of
       Some e \<Rightarrow> e
     | None \<Rightarrow> Max (set (0 # break_places msg base width)))"

text \<open>
  The characters that were looked at, up to the end of the text or else the whole
  window, are rewritten: a tab and a newline among them become a space.
\<close>

definition looked_at :: "string \<Rightarrow> nat \<Rightarrow> int \<Rightarrow> nat" where
  "looked_at msg base width =
    (case text_end msg base width of Some e \<Rightarrow> e + 1 | None \<Rightarrow> nat (width + 1))"

definition retouch :: "string \<Rightarrow> nat \<Rightarrow> int \<Rightarrow> string" where
  "retouch msg base width =
    map (\<lambda>k. if base \<le> k \<and> k < base + looked_at msg base width
                  \<and> (msg ! k = CHR 0x09 \<or> msg ! k = CHR 0x0A)
               then CHR '' '' else msg ! k)
      [0 ..< length msg]"

text \<open>The first position from \<open>pos\<close> on that holds no space.\<close>

definition past_spaces :: "string \<Rightarrow> nat \<Rightarrow> nat" where
  "past_spaces msg pos = pos + length (takeWhile (\<lambda>c. c = CHR '' '') (drop pos msg))"

text \<open>
  The pieces of the first \<open>n\<close> lines, and whether the end of the message was reached
  within them: a piece runs from \<open>base\<close> to the line break, and the next piece starts
  at the first character behind the break that is no space.
\<close>

fun wrap :: "nat \<Rightarrow> int \<Rightarrow> string \<Rightarrow> nat \<Rightarrow> string list \<times> bool" where
  "wrap 0 width msg base = ([], False)"
| "wrap (Suc n) width msg base =
    (if char_at msg base = CHR 0x00 then ([], True)
     else
       let e = line_break msg base width;
           msg' = retouch msg base width
       in case wrap n width msg' (past_spaces msg' (base + e)) of
            (pieces, ended) \<Rightarrow> (take e (drop base msg') # pieces, ended))"

subsection \<open>The grammar parser, waiting for a precedence symbol\<close>

datatype e_state =
  INITIALIZE | WAITING_FOR_DECL_OR_RULE | WAITING_FOR_DECL_KEYWORD | WAITING_FOR_DECL_ARG
| WAITING_FOR_PRECEDENCE_SYMBOL | WAITING_FOR_ARROW | IN_RHS | LHS_ALIAS_1 | LHS_ALIAS_2
| LHS_ALIAS_3 | RHS_ALIAS_1 | RHS_ALIAS_2 | PRECEDENCE_MARK_1 | PRECEDENCE_MARK_2
| RESYNC_AFTER_RULE_ERROR | RESYNC_AFTER_DECL_ERROR | WAITING_FOR_DESTRUCTOR_SYMBOL
| WAITING_FOR_DATATYPE_SYMBOL

record pstate =
  ps_filename :: string
  ps_tokenlineno :: int
  ps_errorcnt :: int
  ps_state :: e_state
  ps_declassoc :: e_assoc
  ps_preccounter :: int

text \<open>Character classes of the C locale.\<close>

definition isupper :: "char \<Rightarrow> bool" where
  "isupper c = (CHR ''A'' \<le> c \<and> c \<le> CHR ''Z'')"

definition islower :: "char \<Rightarrow> bool" where
  "islower c = (CHR ''a'' \<le> c \<and> c \<le> CHR ''z'')"

definition isalpha :: "char \<Rightarrow> bool" where
  "isalpha c = (isupper c \<or> islower c)"

text \<open>
  The symbol table \<^verbatim>\<open>x2a\<close> is the list of its entries in the order of \<^verbatim>\<open>x2a->tbl\<close>, the
  order of insertion; before the symbols are sorted a \<^verbatim>\<open>struct symbol *\<close> is the
  position of the entry.  \<^verbatim>\<open>Symbol_find\<close> looks a name up, \<^verbatim>\<open>Symbol_new\<close> returns the
  symbol of a name and makes it when the name is new; \<^verbatim>\<open>index\<close> is not set then.
\<close>

fun Symbol_find :: "symbol list \<Rightarrow> string \<Rightarrow> nat option" where
  "Symbol_find [] key = None"
| "Symbol_find (s # x2a) key =
    (if sym_name s = key then Some 0 else map_option Suc (Symbol_find x2a key))"

definition Symbol_new :: "string \<Rightarrow> symbol list \<Rightarrow> nat \<times> symbol list" where
  "Symbol_new x x2a =
    (case Symbol_find x2a x of
       Some sp \<Rightarrow> (sp, x2a)
     | None \<Rightarrow>
         (length x2a,
          x2a @ [\<lparr>sym_name = x, sym_index = 0,
                  sym_type = (if isupper (char_at x 0) then TERMINAL else NONTERMINAL),
                  sym_prec = - 1, sym_assoc = UNK\<rparr>]))"

text \<open>
  The texts that \<^verbatim>\<open>vsprintf\<close> makes of the two formats of this case,
  \<^verbatim>\<open>"Symbol \"%s\" has already be given a precedence."\<close> and
  \<^verbatim>\<open>"Can't assign a precedence to \"%s\"."\<close>.
\<close>

definition already_given_message :: "string \<Rightarrow> string" where
  "already_given_message x =
    ''Symbol '' @ [CHR 0x22] @ x @ [CHR 0x22] @ '' has already be given a precedence.''"

definition cant_assign_message :: "string \<Rightarrow> string" where
  "cant_assign_message x =
    ''Can'' @ [CHR 0x27] @ ''t assign a precedence to '' @ [CHR 0x22] @ x @ [CHR 0x22] @ ''.''"

text \<open>
  The case \<^verbatim>\<open>WAITING_FOR_PRECEDENCE_SYMBOL\<close> of \<^verbatim>\<open>parseonetoken\<close>, on the token \<open>x\<close>.
  The result is what was written, and the parser state and symbol table when the case
  is left; \<open>None\<close> when \<^verbatim>\<open>ErrorMsg\<close> has not returned within the fuel.
\<close>

definition parseonetoken_WAITING_FOR_PRECEDENCE_SYMBOL ::
  "nat \<Rightarrow> pstate \<Rightarrow> symbol list \<Rightarrow> string \<Rightarrow> writes \<times> (pstate \<times> symbol list) option" where
  "parseonetoken_WAITING_FOR_PRECEDENCE_SYMBOL fuel psp x2a x =
    (if char_at x 0 = CHR ''.'' then
       ([], Some (psp\<lparr>ps_state := WAITING_FOR_DECL_OR_RULE\<rparr>, x2a))
     else if isupper (char_at x 0) then
       (case Symbol_new x x2a of
          (sp, x2a') \<Rightarrow>
            if sym_prec (x2a' ! sp) \<ge> 0 then
              (case ErrorMsg fuel (ps_filename psp) (ps_tokenlineno psp)
                      (already_given_message x) of
                 (ws, returned) \<Rightarrow>
                   (ws, if returned then Some (psp\<lparr>ps_errorcnt := ps_errorcnt psp + 1\<rparr>, x2a')
                        else None))
            else
              ([], Some (psp, x2a'[sp := (x2a' ! sp)\<lparr>sym_prec := ps_preccounter psp,
                                                     sym_assoc := ps_declassoc psp\<rparr>])))
     else
       (case ErrorMsg fuel (ps_filename psp) (ps_tokenlineno psp) (cant_assign_message x) of
          (ws, returned) \<Rightarrow>
            (ws, if returned then Some (psp\<lparr>ps_errorcnt := ps_errorcnt psp + 1\<rparr>, x2a)
                 else None)))"

text \<open>
  A parser state in the second of two declarations \<^verbatim>\<open>%left X.  %right X.\<close> on line 2
  of \<^verbatim>\<open>g.y\<close>, and the symbol table the first one has left.
\<close>

definition dup_psp :: pstate where
  "dup_psp = \<lparr>ps_filename = ''g.y'', ps_tokenlineno = 2, ps_errorcnt = 0,
      ps_state = WAITING_FOR_PRECEDENCE_SYMBOL, ps_declassoc = RIGHT, ps_preccounter = 2\<rparr>"

definition dup_x2a :: "string \<Rightarrow> symbol list" where
  "dup_x2a x =
    [mk_symbol ''$'' 0 NONTERMINAL (- 1) UNK, mk_symbol ''error'' 0 NONTERMINAL (- 1) UNK,
     mk_symbol x 0 TERMINAL 1 LEFT]"

definition long_name :: string where
  "long_name = replicate 80 (CHR ''A'')"

definition long_msg :: string where
  "long_msg = already_given_message long_name"

text \<open>A message of \<^verbatim>\<open>FindStates\<close> that does not fit on one line.\<close>

definition wrap_msg :: string where
  "wrap_msg = ''The start symbol occurs on the right-hand side of a rule. This will result in a parser which does not work properly.''"

subsection \<open>Properties of the line breaker\<close>

lemma findbreak_loop_length:
  "length (fst (findbreak_loop msg base i spot mx)) = length msg"
proof (induction msg base i spot mx rule: findbreak_loop.induct)
  case (1 msg base i spot mx)
  show ?case
    using "1.IH"
    by (subst findbreak_loop.simps) (simp add: Let_def)
qed

lemma findbreak_loop_bound:
  "int spot \<le> max 0 mx \<Longrightarrow> int (snd (findbreak_loop msg base i spot mx)) \<le> max 0 mx"
proof (induction msg base i spot mx rule: findbreak_loop.induct)
  case (1 msg base i spot mx)
  show ?case
    using "1.IH" "1.prems"
    by (subst findbreak_loop.simps) (auto simp add: Let_def)
qed

lemma findbreak_bound: "int (snd (findbreak msg base 0 mx)) \<le> max 0 mx"
  by (simp add: findbreak_def findbreak_loop_bound)

lemma show_nat_length: "0 < k \<Longrightarrow> n < 10 ^ k \<Longrightarrow> length (show_nat n) \<le> k"
proof (induction n arbitrary: k rule: show_nat.induct)
  case (1 n)
  show ?case
  proof (cases "n < 10")
    case True
    then show ?thesis using "1.prems" by (subst show_nat.simps) simp
  next
    case False
    have "k \<noteq> 1" using "1.prems" False by auto
    then have k: "1 < k" using "1.prems" by simp
    then obtain j where j: "k = Suc j" "0 < j" by (cases k) auto
    have "n div 10 < 10 ^ j" using "1.prems" j by (simp add: less_mult_imp_div_less mult.commute)
    then have "length (show_nat (n div 10)) \<le> j" using "1.IH" False j by simp
    then show ?thesis using False j by (subst show_nat.simps) simp
  qed
qed

lemma ErrorMsg_prefix_length:
  assumes "lineno \<le> 2147483647"
  shows "length (ErrorMsg_prefix filename lineno) \<le> 33"
proof -
  have "length (show_nat (nat lineno)) \<le> 10" if "0 < lineno"
    by (rule show_nat_length) (use assms that in auto)
  then show ?thesis
    by (auto simp add: ErrorMsg_prefix_def PREFIXLIMIT_def)
qed

lemma ErrorMsg_loop_writes:
  "w \<in> set (fst (ErrorMsg_loop fuel prefix avail errmsg base)) \<Longrightarrow>
   \<exists>piece. w = (Stdout, prefix @ piece @ [CHR 0x0A]) \<and> int (length piece) \<le> max 0 avail"
proof (induction fuel arbitrary: errmsg base)
  case 0
  then show ?case by simp
next
  case (Suc fuel)
  show ?case
  proof (cases "char_at errmsg base = CHR 0x00")
    case True
    with Suc.prems show ?thesis by simp
  next
    case False
    obtain errmsg' e where fb: "findbreak errmsg base 0 avail = (errmsg', e)"
      by (cases "findbreak errmsg base 0 avail")
    have e: "int e \<le> max 0 avail" using findbreak_bound [of errmsg base avail] fb by simp
    from Suc.prems False fb
    consider "w = (Stdout, prefix @ take e (drop base errmsg') @ [CHR 0x0A])"
      | "w \<in> set (fst (ErrorMsg_loop fuel prefix avail errmsg' (skip_spaces errmsg' (base + e))))"
      by (auto simp add: Let_def split: prod.splits)
    then show ?thesis
    proof cases
      case 1
      then show ?thesis using e by (intro exI [of _ "take e (drop base errmsg')"]) auto
    next
      case 2
      then show ?thesis by (rule Suc.IH)
    qed
  qed
qed

lemma char_at_update_other: "j \<noteq> k \<Longrightarrow> char_at (s[k := c]) j = char_at s j"
  by (simp add: char_at_def)

lemma skip_spaces_past: "skip_spaces msg pos = past_spaces msg pos"
proof (induction msg pos rule: skip_spaces.induct)
  case (1 errmsg restart)
  show ?case
  proof (cases "char_at errmsg restart = CHR '' ''")
    case True
    then have lt: "restart < length errmsg" by (auto simp add: char_at_def split: if_splits)
    then have d: "drop restart errmsg = errmsg ! restart # drop (Suc restart) errmsg"
      by (simp add: Cons_nth_drop_Suc)
    have "skip_spaces errmsg restart = skip_spaces errmsg (restart + 1)"
      using True by (subst skip_spaces.simps) simp
    also have "\<dots> = past_spaces errmsg (restart + 1)" using True by (rule "1.IH")
    also have "\<dots> = past_spaces errmsg restart"
      using True lt unfolding past_spaces_def d by (simp add: char_at_def)
    finally show ?thesis .
  next
    case False
    have "skip_spaces errmsg restart = restart"
      using False by (subst skip_spaces.simps) simp
    moreover have "past_spaces errmsg restart = restart"
    proof (cases "restart < length errmsg")
      case True
      then have d: "drop restart errmsg = errmsg ! restart # drop (Suc restart) errmsg"
        by (simp add: Cons_nth_drop_Suc)
      show ?thesis using False True unfolding past_spaces_def d by (simp add: char_at_def)
    next
      case False
      then show ?thesis by (simp add: past_spaces_def)
    qed
    ultimately show ?thesis by simp
  qed
qed


lemma Max_insert_below:
  assumes "finite X" and "(s::nat) \<le> t"
  shows "Max (insert s (insert t X)) = Max (insert t X)"
proof -
  have "t \<le> Max (insert t X)" using assms(1) by (intro Max_ge) auto
  then have "max s (Max (insert t X)) = Max (insert t X)" using assms(2) by simp
  moreover have "Max (insert s (insert t X)) = max s (Max (insert t X))"
    using assms(1) by (intro Max_insert) auto
  ultimately show ?thesis by simp
qed

lemma findbreak_loop_snd:
  assumes "spot \<le> i"
  shows "snd (findbreak_loop msg base i spot mx) =
    (case find (\<lambda>j. char_at msg (base + j) = CHR 0x0A \<or> char_at msg (base + j) = CHR 0x00)
            [i ..< nat (mx + 1)] of
       Some e \<Rightarrow> e
     | None \<Rightarrow>
         Max (insert spot
           (set (filter (\<lambda>j. char_at msg (base + j) = CHR '' '') [i ..< nat (mx + 1)])
            \<union> Suc ` set (filter (\<lambda>j. char_at msg (base + j) = CHR ''-'') [i ..< nat (mx - 1)]))))"
  using assms
proof (induction msg base i spot mx rule: findbreak_loop.induct)
  case (1 msg base i spot mx)
  let ?c = "char_at msg (base + i)"
  let ?msg1 = "if ?c = CHR 0x09 then msg[base + i := CHR '' ''] else msg"
  show ?case
  proof (cases "int i \<le> mx")
    case False
    then have eq: "findbreak_loop msg base i spot mx = (msg, spot)"
      by (subst findbreak_loop.simps) simp
    from False have "[i ..< nat (mx + 1)] = []" "[i ..< nat (mx - 1)] = []" by simp_all
    then show ?thesis unfolding eq by (simp del: upt_eq_Nil_conv)
  next
    case le: True
    then have up: "[i ..< nat (mx + 1)] = i # [Suc i ..< nat (mx + 1)]"
      by (intro upt_conv_Cons) auto
    show ?thesis
    proof (cases "?c = CHR 0x0A")
      case True
      then have eq: "findbreak_loop msg base i spot mx = (msg[base + i := CHR '' ''], i)"
        by (subst findbreak_loop.simps) (simp add: le Let_def)
      show ?thesis unfolding eq up using True by simp
    next
      case nl: False
      show ?thesis
      proof (cases "?c = CHR 0x00")
        case True
        then have eq: "findbreak_loop msg base i spot mx = (msg, i)"
          by (subst findbreak_loop.simps) (simp add: le Let_def)
        show ?thesis unfolding eq up using True by simp
      next
        case nz: False
        let ?spot1 = "if ?c = CHR ''-'' \<and> int i < mx - 1 then i + 1 else spot"
        let ?spot2 = "if ?c = CHR '' '' then i else ?spot1"
        have eq: "findbreak_loop msg base i spot mx = findbreak_loop ?msg1 base (i + 1) ?spot2 mx"
          by (subst findbreak_loop.simps) (simp add: le nl nz Let_def)
        have keep: "char_at ?msg1 (base + j) = char_at msg (base + j)" if "i < j" for j
          using that by (simp add: char_at_update_other)
        have s2: "?spot2 \<le> i + 1" using "1.prems" by simp
        have ih: "snd (findbreak_loop ?msg1 base (i + 1) ?spot2 mx) =
          (case find (\<lambda>j. char_at ?msg1 (base + j) = CHR 0x0A \<or> char_at ?msg1 (base + j) = CHR 0x00)
                  [i + 1 ..< nat (mx + 1)] of
             Some e \<Rightarrow> e
           | None \<Rightarrow>
               Max (insert ?spot2
                 (set (filter (\<lambda>j. char_at ?msg1 (base + j) = CHR '' '') [i + 1 ..< nat (mx + 1)])
                  \<union> Suc ` set (filter (\<lambda>j. char_at ?msg1 (base + j) = CHR ''-'') [i + 1 ..< nat (mx - 1)]))))"
          using le nl nz s2 by (intro "1.IH" [OF _ refl refl _ _ refl refl]) auto
        have f: "find (\<lambda>j. char_at ?msg1 (base + j) = CHR 0x0A \<or> char_at ?msg1 (base + j) = CHR 0x00)
                  [i + 1 ..< nat (mx + 1)]
                = find (\<lambda>j. char_at msg (base + j) = CHR 0x0A \<or> char_at msg (base + j) = CHR 0x00)
                  [i + 1 ..< nat (mx + 1)]"
          by (rule find_cong) (auto simp add: keep)
        have sp: "filter (\<lambda>j. char_at ?msg1 (base + j) = CHR '' '') [i + 1 ..< nat (mx + 1)]
                = filter (\<lambda>j. char_at msg (base + j) = CHR '' '') [i + 1 ..< nat (mx + 1)]"
          by (rule filter_cong) (auto simp add: keep)
        have hy: "filter (\<lambda>j. char_at ?msg1 (base + j) = CHR ''-'') [i + 1 ..< nat (mx - 1)]
                = filter (\<lambda>j. char_at msg (base + j) = CHR ''-'') [i + 1 ..< nat (mx - 1)]"
          by (rule filter_cong) (auto simp add: keep)
        define S where "S = set (filter (\<lambda>j. char_at msg (base + j) = CHR '' '') [i + 1 ..< nat (mx + 1)])"
        define H where "H = Suc ` set (filter (\<lambda>j. char_at msg (base + j) = CHR ''-'') [i + 1 ..< nat (mx - 1)])"
        have fin: "finite (S \<union> H)" unfolding S_def H_def by simp
        have Si: "set (filter (\<lambda>j. char_at msg (base + j) = CHR '' '') [i ..< nat (mx + 1)])
                  = (if ?c = CHR '' '' then insert i S else S)"
          unfolding up S_def by simp
        have Hi: "Suc ` set (filter (\<lambda>j. char_at msg (base + j) = CHR ''-'') [i ..< nat (mx - 1)])
                  = (if ?c = CHR ''-'' \<and> int i < mx - 1 then insert (i + 1) H else H)"
        proof (cases "int i < mx - 1")
          case True
          then have "[i ..< nat (mx - 1)] = i # [Suc i ..< nat (mx - 1)]"
            by (intro upt_conv_Cons) auto
          then show ?thesis unfolding H_def using True by simp
        next
          case False
          then have "[i ..< nat (mx - 1)] = []" "[i + 1 ..< nat (mx - 1)] = []" by auto
          then show ?thesis unfolding H_def using False by simp
        qed
        have m: "Max (insert spot ((if ?c = CHR '' '' then insert i S else S)
                   \<union> (if ?c = CHR ''-'' \<and> int i < mx - 1 then insert (i + 1) H else H)))
                 = Max (insert ?spot2 (S \<union> H))"
        proof (cases "?c = CHR '' ''")
          case True
          then show ?thesis using Max_insert_below [OF fin "1.prems"] by simp
        next
          case False
          show ?thesis
          proof (cases "?c = CHR ''-'' \<and> int i < mx - 1")
            case True
            have "spot \<le> i + 1" using "1.prems" by simp
            from Max_insert_below [OF fin this] show ?thesis using True False by simp
          next
            case False
            then show ?thesis using \<open>?c \<noteq> CHR '' ''\<close> by auto
          qed
        qed
        show ?thesis
          unfolding eq ih f sp hy Si Hi m
          unfolding up S_def H_def using nl nz by simp
      qed
    qed
  qed
qed


lemma findbreak_loop_fst:
  assumes "k < length msg"
  shows "fst (findbreak_loop msg base i spot mx) ! k =
    (if base + i \<le> k
        \<and> k < base + (case find (\<lambda>j. char_at msg (base + j) = CHR 0x0A \<or> char_at msg (base + j) = CHR 0x00)
                              [i ..< nat (mx + 1)] of
                        Some e \<Rightarrow> e + 1
                      | None \<Rightarrow> nat (mx + 1))
        \<and> (msg ! k = CHR 0x09 \<or> msg ! k = CHR 0x0A)
     then CHR '' '' else msg ! k)"
  using assms
proof (induction msg base i spot mx rule: findbreak_loop.induct)
  case (1 msg base i spot mx)
  let ?c = "char_at msg (base + i)"
  let ?msg1 = "if ?c = CHR 0x09 then msg[base + i := CHR '' ''] else msg"
  let ?P = "\<lambda>j. char_at msg (base + j) = CHR 0x0A \<or> char_at msg (base + j) = CHR 0x00"
  have here: "msg ! k = ?c" if "k = base + i"
    using that "1.prems" by (simp add: char_at_def)
  show ?case
  proof (cases "int i \<le> mx")
    case False
    then have eq: "findbreak_loop msg base i spot mx = (msg, spot)"
      by (subst findbreak_loop.simps) simp
    from False have e: "[i ..< nat (mx + 1)] = []" by simp
    from False have "nat (mx + 1) \<le> i" by simp
    then show ?thesis unfolding eq e by auto
  next
    case le: True
    then have up: "[i ..< nat (mx + 1)] = i # [Suc i ..< nat (mx + 1)]"
      by (intro upt_conv_Cons) auto
    show ?thesis
    proof (cases "?c = CHR 0x0A")
      case True
      then have eq: "findbreak_loop msg base i spot mx = (msg[base + i := CHR '' ''], i)"
        by (subst findbreak_loop.simps) (simp add: le Let_def)
      show ?thesis
      proof (cases "k = base + i")
        case k: True
        then show ?thesis unfolding eq up using True "1.prems" here by simp
      next
        case False
        then show ?thesis unfolding eq up using True by auto
      qed
    next
      case nl: False
      show ?thesis
      proof (cases "?c = CHR 0x00")
        case True
        then have eq: "findbreak_loop msg base i spot mx = (msg, i)"
          by (subst findbreak_loop.simps) (simp add: le Let_def)
        show ?thesis
        proof (cases "k = base + i")
          case k: True
          then show ?thesis unfolding eq up using True "1.prems" here by simp
        next
          case False
          then show ?thesis unfolding eq up using True by auto
        qed
      next
        case nz: False
        let ?spot1 = "if ?c = CHR ''-'' \<and> int i < mx - 1 then i + 1 else spot"
        let ?spot2 = "if ?c = CHR '' '' then i else ?spot1"
        have eq: "findbreak_loop msg base i spot mx = findbreak_loop ?msg1 base (i + 1) ?spot2 mx"
          by (subst findbreak_loop.simps) (simp add: le nl nz Let_def)
        have keep: "char_at ?msg1 (base + j) = char_at msg (base + j)" if "i < j" for j
          using that by (simp add: char_at_update_other)
        have k1: "k < length ?msg1" using "1.prems" by simp
        have f: "find (\<lambda>j. char_at ?msg1 (base + j) = CHR 0x0A \<or> char_at ?msg1 (base + j) = CHR 0x00)
                  [i + 1 ..< nat (mx + 1)]
                = find ?P [i + 1 ..< nat (mx + 1)]"
          by (rule find_cong) (auto simp add: keep)
        define bound where "bound = (case find ?P [i + 1 ..< nat (mx + 1)] of
                        Some e \<Rightarrow> e + 1 | None \<Rightarrow> nat (mx + 1))"
        have ih: "fst (findbreak_loop ?msg1 base (i + 1) ?spot2 mx) ! k =
          (if base + (i + 1) \<le> k \<and> k < base + bound
              \<and> (?msg1 ! k = CHR 0x09 \<or> ?msg1 ! k = CHR 0x0A)
           then CHR '' '' else ?msg1 ! k)"
          unfolding bound_def f [symmetric]
          using le nl nz k1 by (intro "1.IH" [OF _ refl refl _ _ refl refl]) auto
        have b: "(case find ?P [i ..< nat (mx + 1)] of Some e \<Rightarrow> e + 1 | None \<Rightarrow> nat (mx + 1)) = bound"
          unfolding up bound_def using nl nz by simp
        have big: "i + 1 \<le> bound"
        proof (cases "find ?P [i + 1 ..< nat (mx + 1)]")
          case None
          then show ?thesis unfolding bound_def using le by simp
        next
          case (Some e)
          then have "e \<in> set [i + 1 ..< nat (mx + 1)]"
            by (auto simp add: find_Some_iff)
          then show ?thesis unfolding bound_def Some by simp
        qed
        show ?thesis
        proof (cases "k = base + i")
          case True
          have "fst (findbreak_loop ?msg1 base (i + 1) ?spot2 mx) ! k = ?msg1 ! k"
            unfolding ih using True by simp
          also have "\<dots> = (if ?c = CHR 0x09 then CHR '' '' else ?c)"
            using True "1.prems" here by simp
          finally show ?thesis
            unfolding eq b using True big nl here by simp
        next
          case False
          then have "?msg1 ! k = msg ! k" by simp
          then show ?thesis
            unfolding eq b ih using False by auto
        qed
      qed
    qed
  qed
qed

lemma findbreak_spec:
  "findbreak msg base 0 width = (retouch msg base width, line_break msg base width)"
proof (rule prod_eqI)
  show "fst (findbreak msg base 0 width) = fst (retouch msg base width, line_break msg base width)"
    unfolding findbreak_def
    by (rule nth_equalityI)
      (auto simp add: findbreak_loop_length findbreak_loop_fst retouch_def looked_at_def text_end_def)
  show "snd (findbreak msg base 0 width) = snd (retouch msg base width, line_break msg base width)"
    unfolding findbreak_def
    by (simp add: findbreak_loop_snd line_break_def text_end_def break_places_def
        split: option.split)
qed

lemma ErrorMsg_loop_wrap:
  "ErrorMsg_loop fuel prefix width msg base =
     (map (\<lambda>piece. (Stdout, prefix @ piece @ [CHR 0x0A])) (fst (wrap fuel width msg base)),
      snd (wrap fuel width msg base))"
proof (induction fuel arbitrary: msg base)
  case 0
  show ?case by simp
next
  case (Suc fuel)
  show ?case
    by (simp add: findbreak_spec skip_spaces_past Suc.IH Let_def split: prod.splits)
qed

lemma wrap_width:
  "piece \<in> set (fst (wrap fuel width msg base)) \<Longrightarrow> int (length piece) \<le> max 0 width"
  using ErrorMsg_loop_writes [of "(Stdout, prefix @ piece @ [CHR 0x0A])" fuel prefix width msg base]
  unfolding ErrorMsg_loop_wrap by auto

lemma ErrorMsg_loop_stuck:
  assumes "char_at errmsg base \<noteq> CHR 0x00"
    and "findbreak errmsg base 0 avail = (errmsg, 0)"
    and "skip_spaces errmsg base = base"
  shows "ErrorMsg_loop fuel prefix avail errmsg base
         = (replicate fuel (Stdout, prefix @ [CHR 0x0A]), False)"
  using assms by (induction fuel) simp_all


subsection \<open>What \<^verbatim>\<open>ErrorMsg\<close> prints\<close>

text \<open>
  Claim C9, as amended.  For a message that fits into the buffer of \<^verbatim>\<open>ErrorMsg\<close> (fewer
  than 10000 characters) and a line number of the range of \<^verbatim>\<open>int\<close>: every line that
  \<^verbatim>\<open>ErrorMsg\<close> writes goes to the standard output.  Within any number \<open>fuel\<close> of
  iterations of its loop, \<^verbatim>\<open>ErrorMsg\<close> writes one line for each of the first \<open>fuel\<close>
  pieces of the wrapping specified above: the prefix (the first 20 characters of the
  file name, then \<^verbatim>\<open>:line: \<close>, or \<^verbatim>\<open>: \<close> when the line number is not positive), the
  piece and a newline; and it returns within these iterations exactly when the
  wrapping reaches the end of the message within them.  The message is wrapped
  without its trailing newlines, in a window of 79 columns less the length of the
  prefix: a piece ends at the first newline or at the end of the message when the
  window holds one, else at the last space of the window or just behind its last
  hyphen, whichever is later, and is empty when the window holds none of these.
  Prefix and piece together are at most 79 characters long.
\<close>

theorem ErrorMsg_lines:
  assumes "length (c_string message) < ERRMSGSIZE" and "lineno \<le> 2147483647"
  shows "ErrorMsg fuel filename lineno message =
     (map (\<lambda>piece. (Stdout, ErrorMsg_prefix filename lineno @ piece @ [CHR 0x0A]))
        (fst (wrap fuel (79 - int (length (ErrorMsg_prefix filename lineno)))
                (strip_newlines (c_string message)) 0)),
      snd (wrap fuel (79 - int (length (ErrorMsg_prefix filename lineno)))
             (strip_newlines (c_string message)) 0))
   \<and> (\<forall>piece \<in> set (fst (wrap fuel (79 - int (length (ErrorMsg_prefix filename lineno)))
                                 (strip_newlines (c_string message)) 0)).
           length (ErrorMsg_prefix filename lineno @ piece) \<le> 79)"
proof (rule conjI)
  show "ErrorMsg fuel filename lineno message =
     (map (\<lambda>piece. (Stdout, ErrorMsg_prefix filename lineno @ piece @ [CHR 0x0A]))
        (fst (wrap fuel (79 - int (length (ErrorMsg_prefix filename lineno)))
                (strip_newlines (c_string message)) 0)),
      snd (wrap fuel (79 - int (length (ErrorMsg_prefix filename lineno)))
             (strip_newlines (c_string message)) 0))"
    unfolding ErrorMsg_def Let_def LINEWIDTH_def by (rule ErrorMsg_loop_wrap)
  show "\<forall>piece \<in> set (fst (wrap fuel (79 - int (length (ErrorMsg_prefix filename lineno)))
                                 (strip_newlines (c_string message)) 0)).
           length (ErrorMsg_prefix filename lineno @ piece) \<le> 79"
  proof (rule ballI)
    fix piece
    assume p: "piece \<in> set (fst (wrap fuel (79 - int (length (ErrorMsg_prefix filename lineno)))
                                 (strip_newlines (c_string message)) 0))"
    have "length (ErrorMsg_prefix filename lineno) \<le> 33"
      using assms(2) by (rule ErrorMsg_prefix_length)
    moreover have "int (length piece) \<le> max 0 (79 - int (length (ErrorMsg_prefix filename lineno)))"
      using p by (rule wrap_width)
    ultimately show "length (ErrorMsg_prefix filename lineno @ piece) \<le> 79"
      by simp
  qed
qed

text \<open>
  The theorem at the message of \<^verbatim>\<open>FindStates\<close> about the start symbol, printed for
  \<^verbatim>\<open>g.y\<close> without a line number: the window is 74 columns wide, the message takes
  two lines, the first line ends at the space at position 74 and the second starts
  behind it.
\<close>

theorem ErrorMsg_lines_witness:
  "length (c_string wrap_msg) < ERRMSGSIZE
   \<and> (0::int) \<le> 2147483647
   \<and> wrap 4 74 wrap_msg 0
     = ([''The start symbol occurs on the right-hand side of a rule. This will result'',
         ''in a parser which does not work properly.''], True)
   \<and> ErrorMsg 4 ''g.y'' 0 wrap_msg
     = ([(Stdout, ''g.y: The start symbol occurs on the right-hand side of a rule. This will result''
                  @ [CHR 0x0A]),
         (Stdout, ''g.y: in a parser which does not work properly.'' @ [CHR 0x0A])], True)
   \<and> length (ErrorMsg_prefix ''g.y'' 0
              @ ''The start symbol occurs on the right-hand side of a rule. This will result'') \<le> 79
   \<and> line_break wrap_msg 0 74 = 74
   \<and> past_spaces (retouch wrap_msg 0 74) 74 = 75"
proof -
  have size: "length (c_string wrap_msg) = 116"
    by code_simp
  then have fits: "length (c_string wrap_msg) < ERRMSGSIZE"
    by (simp add: ERRMSGSIZE_def)
  have range: "(0::int) \<le> 2147483647"
    by simp
  have prefix: "ErrorMsg_prefix ''g.y'' 0 = ''g.y: ''"
    by code_simp
  have msg: "strip_newlines (c_string wrap_msg) = wrap_msg"
    by code_simp
  have pieces: "wrap 4 74 wrap_msg 0
     = ([''The start symbol occurs on the right-hand side of a rule. This will result'',
         ''in a parser which does not work properly.''], True)"
    by code_simp
  have spot: "line_break wrap_msg 0 74 = 74"
    by code_simp
  have restart: "past_spaces (retouch wrap_msg 0 74) 74 = 75"
    by code_simp
  note t = ErrorMsg_lines [OF fits range, of 4 "''g.y''", unfolded prefix msg]
  have run: "ErrorMsg 4 ''g.y'' 0 wrap_msg
     = ([(Stdout, ''g.y: The start symbol occurs on the right-hand side of a rule. This will result''
                  @ [CHR 0x0A]),
         (Stdout, ''g.y: in a parser which does not work properly.'' @ [CHR 0x0A])], True)"
    using t pieces by simp
  have width: "length (ErrorMsg_prefix ''g.y'' 0
              @ ''The start symbol occurs on the right-hand side of a rule. This will result'') \<le> 79"
    using t pieces unfolding prefix by simp
  show ?thesis
    by (intro conjI) (rule fits range pieces run width spot restart)+
qed

text \<open>
  The claim as it was stated has the diagnostics on the standard error.  The message
  of \<^verbatim>\<open>FindActions\<close> for a rule that is never reduced, on line 3 of \<^verbatim>\<open>g.y\<close>, is one
  write to the standard output, and nothing is written to the standard error.
\<close>

theorem ErrorMsg_stream_counterexample:
  "ErrorMsg 2 ''g.y'' 3 (''This rule can not be reduced.'' @ [CHR 0x0A])
     = ([(Stdout, ''g.y:3: This rule can not be reduced.'' @ [CHR 0x0A])], True)
   \<and> filter (\<lambda>w. fst w = Stderr)
        (fst (ErrorMsg 2 ''g.y'' 3 (''This rule can not be reduced.'' @ [CHR 0x0A]))) = []"
  by code_simp

subsection \<open>A precedence given twice\<close>

lemma long_msg_eval:
  "strip_newlines (c_string long_msg) = long_msg"
  "findbreak long_msg 0 0 72 = (long_msg, 6)"
  "skip_spaces long_msg 6 = 7"
  "findbreak long_msg 7 0 72 = (long_msg, 0)"
  "skip_spaces long_msg 7 = 7"
  "char_at long_msg 0 \<noteq> CHR 0x00"
  "char_at long_msg 7 \<noteq> CHR 0x00"
  "ErrorMsg_prefix ''g.y'' 2 = ''g.y:2: ''"
  by code_simp+

text \<open>
  On the message for a terminal with a name of 80 letters the loop of \<^verbatim>\<open>ErrorMsg\<close>
  prints \<^verbatim>\<open>Symbol\<close>, and then finds no place to break in the 73 characters from
  position 7 on: \<^verbatim>\<open>findbreak\<close> returns 0, \<^verbatim>\<open>base\<close> stays 7, and the loop is never left.
\<close>

lemma ErrorMsg_long_msg: "snd (ErrorMsg fuel ''g.y'' 2 long_msg) = False"
proof (cases fuel)
  case 0
  then show ?thesis by (simp add: ErrorMsg_def)
next
  case (Suc n)
  have "ErrorMsg_loop n ''g.y:2: '' 72 long_msg 7
        = (replicate n (Stdout, ''g.y:2: '' @ [CHR 0x0A]), False)"
    by (rule ErrorMsg_loop_stuck) (simp_all add: long_msg_eval)
  then show ?thesis
    using Suc by (simp add: ErrorMsg_def long_msg_eval LINEWIDTH_def)
qed

lemma dup_eval:
  "char_at long_name 0 \<noteq> CHR ''.''"
  "isupper (char_at long_name 0)"
  "Symbol_new long_name (dup_x2a long_name) = (2, dup_x2a long_name)"
  "sym_prec (dup_x2a long_name ! 2) = 1"
  by code_simp+

text \<open>
  Where \<^verbatim>\<open>ErrorMsg\<close> returns, the case does what claim C10 says: the error counter
  grows by one, and the symbol table, with the precedence and the associativity of the
  terminal, is the one before the token.
\<close>

lemma parseonetoken_duplicate_precedence_returned:
  assumes "isupper (char_at x 0)"
    and "Symbol_find x2a x = Some sp"
    and "0 \<le> sym_prec (x2a ! sp)"
    and "snd (ErrorMsg fuel (ps_filename psp) (ps_tokenlineno psp) (already_given_message x))"
  shows "snd (parseonetoken_WAITING_FOR_PRECEDENCE_SYMBOL fuel psp x2a x)
         = Some (psp\<lparr>ps_errorcnt := ps_errorcnt psp + 1\<rparr>, x2a)"
proof -
  have "char_at x 0 \<noteq> CHR ''.''"
    using assms(1) by (auto simp add: isupper_def less_eq_char_def)
  moreover obtain ws where
    "ErrorMsg fuel (ps_filename psp) (ps_tokenlineno psp) (already_given_message x) = (ws, True)"
    using assms(4)
    by (cases "ErrorMsg fuel (ps_filename psp) (ps_tokenlineno psp) (already_given_message x)")
      simp
  ultimately show ?thesis
    using assms(1-3)
    by (simp add: parseonetoken_WAITING_FOR_PRECEDENCE_SYMBOL_def Symbol_new_def)
qed

lemma parseonetoken_duplicate_precedence_PLUS:
  "parseonetoken_WAITING_FOR_PRECEDENCE_SYMBOL 2 dup_psp (dup_x2a ''PLUS'') ''PLUS''
   = ([(Stdout, ''g.y:2: Symbol '' @ [CHR 0x22] @ ''PLUS'' @ [CHR 0x22]
                 @ '' has already be given a precedence.'' @ [CHR 0x0A])],
      Some (dup_psp\<lparr>ps_errorcnt := 1\<rparr>, dup_x2a ''PLUS''))"
  by code_simp

text \<open>
  Claim C10 at a terminal with a name of 80 letters that has precedence 1 and is listed
  again on line 2 of \<^verbatim>\<open>g.y\<close>: with no amount of fuel does the case return, so the error
  counter is never incremented.
\<close>

theorem parseonetoken_duplicate_precedence_long_name:
  "\<forall>fuel. snd (parseonetoken_WAITING_FOR_PRECEDENCE_SYMBOL fuel dup_psp
                  (dup_x2a long_name) long_name) = None"
proof
  fix fuel
  have "snd (ErrorMsg fuel ''g.y'' 2 long_msg) = False"
    by (rule ErrorMsg_long_msg)
  then obtain ws where "ErrorMsg fuel ''g.y'' 2 long_msg = (ws, False)"
    by (cases "ErrorMsg fuel ''g.y'' 2 long_msg") simp
  then show "snd (parseonetoken_WAITING_FOR_PRECEDENCE_SYMBOL fuel dup_psp
                  (dup_x2a long_name) long_name) = None"
    by (simp add: parseonetoken_WAITING_FOR_PRECEDENCE_SYMBOL_def dup_eval dup_psp_def
        long_msg_def [symmetric])
qed


section \<open>The symbols in \<^verbatim>\<open>main\<close>\<close>

text \<open>
  \<^verbatim>\<open>strcmp\<close> of the C library on two C strings: the difference of the first two
  characters that differ, read as \<^verbatim>\<open>unsigned char\<close>, and the end of a string is a NUL.
\<close>

fun strcmp :: "string \<Rightarrow> string \<Rightarrow> int" where
  "strcmp [] [] = 0"
| "strcmp [] (b # bs) = - int (of_char b)"
| "strcmp (a # as) [] = int (of_char a)"
| "strcmp (a # as) (b # bs) = (if a = b then strcmp as bs else int (of_char a) - int (of_char b))"

definition Symbolcmpp :: "symbol \<Rightarrow> symbol \<Rightarrow> int" where
  "Symbolcmpp a b = strcmp (sym_name a) (sym_name b)"

text \<open>
  \<^verbatim>\<open>qsort\<close> of the C library puts an array in ascending order of the comparison
  function.  Which of the orders it reaches for elements that compare equal is not
  fixed by the library; the symbols compared here have different names.  The model
  sorts by insertion.
\<close>

fun qsort_insert :: "('a \<Rightarrow> 'a \<Rightarrow> int) \<Rightarrow> 'a \<Rightarrow> 'a list \<Rightarrow> 'a list" where
  "qsort_insert cmp a [] = [a]"
| "qsort_insert cmp a (b # bs) =
    (if cmp a b \<le> 0 then a # b # bs else b # qsort_insert cmp a bs)"

definition qsort :: "('a \<Rightarrow> 'a \<Rightarrow> int) \<Rightarrow> 'a list \<Rightarrow> 'a list" where
  "qsort cmp array = foldr (qsort_insert cmp) array []"

text \<open>
  \<^verbatim>\<open>for(i=1; safe_isupper(lem.symbols[i]->name[0]); i++);\<close>  The loop of the source
  has no bound; the last symbol of the array is \<^verbatim>\<open>{default}\<close>, so the bound written
  here is never the reason to stop.
\<close>

function nterminal_scan :: "symbol list \<Rightarrow> nat \<Rightarrow> nat" where
  "nterminal_scan syms i =
    (if i < length syms \<and> isupper (char_at (sym_name (syms ! i)) 0)
     then nterminal_scan syms (i + 1) else i)"
  by pat_completeness auto
termination
  by (relation "measure (\<lambda>(syms, i). length syms - i)") auto

declare nterminal_scan.simps [simp del]

text \<open>
  The part of \<^verbatim>\<open>main\<close> that counts, sorts and indexes the symbols, on the symbol
  table that \<^verbatim>\<open>Parse\<close> has left: the result is the array \<^verbatim>\<open>lem.symbols\<close> with the
  index fields set, \<^verbatim>\<open>lem.nsymbol\<close> and \<^verbatim>\<open>lem.nterminal\<close>.
\<close>

definition main_symbols :: "symbol list \<Rightarrow> symbol list \<times> int \<times> int" where
  "main_symbols x2a =
    (let nsymbol = length x2a;
         x2a' = snd (Symbol_new ''{default}'' x2a);
         sorted_syms = qsort Symbolcmpp (take (nsymbol + 1) x2a');
         syms = map (\<lambda>(i, s). s\<lparr>sym_index := int i\<rparr>) (enumerate 0 sorted_syms)
     in (syms, int nsymbol, int (nterminal_scan syms 1)))"

text \<open>
  The names of a symbol table after parsing: one name for one symbol, C strings,
  \<^verbatim>\<open>$\<close> among them, and every other name begins with a letter.
\<close>

definition parsed_table :: "symbol list \<Rightarrow> bool" where
  "parsed_table x2a =
    (distinct (map sym_name x2a)
     \<and> list_all (\<lambda>s. CHR 0x00 \<notin> set (sym_name s)) x2a
     \<and> ''$'' \<in> set (map sym_name x2a)
     \<and> list_all (\<lambda>s. sym_name s = ''$'' \<or> isalpha (char_at (sym_name s) 0)) x2a)"


text \<open>The symbol table of a grammar with the terminals \<^verbatim>\<open>PLUS\<close> and \<^verbatim>\<open>INT\<close>.\<close>

definition expr_x2a :: "symbol list" where
  "expr_x2a =
    [mk_symbol ''$'' 0 NONTERMINAL (- 1) UNK, mk_symbol ''error'' 0 NONTERMINAL (- 1) UNK,
     mk_symbol ''PLUS'' 0 TERMINAL 1 LEFT, mk_symbol ''expr'' 0 NONTERMINAL (- 1) UNK,
     mk_symbol ''INT'' 0 TERMINAL (- 1) UNK]"

subsection \<open>The comparison and the sort\<close>

lemma of_char_nat_0: "(of_char a = (0::nat)) = (a = CHR 0x00)"
  using of_char_eq_iff [of a "CHR 0x00", where ?'a = nat] by simp

lemma strcmp_le:
  "CHR 0x00 \<notin> set a \<Longrightarrow> CHR 0x00 \<notin> set b \<Longrightarrow> strcmp a b \<le> 0 \<longleftrightarrow> a \<le> b"
proof (induction a b rule: strcmp.induct)
  case (3 a as)
  then have "of_char a \<noteq> (0::nat)"
    by (auto simp add: of_char_nat_0)
  then show ?case by simp
next
  case (4 a as b bs)
  show ?case
  proof (cases "a = b")
    case True
    then show ?thesis using 4 by simp
  next
    case False
    have "(int (of_char a) - int (of_char b) \<le> 0) = (a \<le> b)"
      by (simp add: less_eq_char_def)
    then show ?thesis using False
      by (simp add: order.strict_iff_order)
  qed
qed simp_all

lemma qsort_insert_insort:
  assumes "CHR 0x00 \<notin> set (sym_name a)" and "\<forall>b \<in> set bs. CHR 0x00 \<notin> set (sym_name b)"
  shows "qsort_insert Symbolcmpp a bs = insort_key sym_name a bs"
  using assms by (induction bs) (simp_all add: Symbolcmpp_def strcmp_le)

lemma qsort_sort_key:
  assumes "\<forall>b \<in> set bs. CHR 0x00 \<notin> set (sym_name b)"
  shows "qsort Symbolcmpp bs = sort_key sym_name bs"
  using assms
proof (induction bs)
  case Nil
  then show ?case by (simp add: qsort_def)
next
  case (Cons b bs)
  then have "qsort Symbolcmpp bs = sort_key sym_name bs" by simp
  moreover have "\<forall>c \<in> set (sort_key sym_name bs). CHR 0x00 \<notin> set (sym_name c)"
    using Cons.prems by simp
  ultimately show ?case
    using Cons.prems by (simp add: qsort_def qsort_insert_insort sort_key_def)
qed

lemma map_sort_key: "map f (sort_key f xs) = sort (map f xs)"
  by (rule properties_for_sort [symmetric]) simp_all

lemma nterminal_scan_takeWhile:
  "nterminal_scan syms i
   = i + length (takeWhile (\<lambda>s. isupper (char_at (sym_name s) 0)) (drop i syms))"
proof (induction syms i rule: nterminal_scan.induct)
  case (1 syms i)
  show ?case
  proof (cases "i < length syms")
    case True
    then have d: "drop i syms = syms ! i # drop (Suc i) syms"
      by (simp add: Cons_nth_drop_Suc)
    show ?thesis
      using "1.IH" True by (subst nterminal_scan.simps) (simp add: d)
  next
    case False
    then show ?thesis by (subst nterminal_scan.simps) simp
  qed
qed


lemma Symbol_find_None: "Symbol_find x2a key = None \<longleftrightarrow> key \<notin> sym_name ` set x2a"
  by (induction x2a) auto

lemma char_at_0_Cons: "char_at (c # r) 0 = c"
  by (simp add: char_at_def)

lemma char_at_0_Nil: "char_at [] 0 = CHR 0x00"
  by (simp add: char_at_def)

lemma initial_classes:
  "isupper c \<Longrightarrow> CHR ''$'' < c"
  "islower c \<Longrightarrow> CHR ''$'' < c"
  "islower c \<Longrightarrow> CHR ''Z'' < c"
  "\<not> isupper (CHR ''$'')" "\<not> isupper (CHR ''{'')" "\<not> islower (CHR ''{'')"
  "\<not> isupper (CHR 0x00)" "\<not> islower (CHR 0x00)"
  "CHR ''Z'' < CHR ''{''" "CHR ''$'' < CHR ''{''"
  by (simp_all add: isupper_def islower_def less_eq_char_def less_char_def)

lemma isupper_le: "isupper c \<Longrightarrow> c \<le> CHR ''Z''"
  by (simp add: isupper_def)

lemma initial_le: "a \<noteq> [] \<Longrightarrow> b \<noteq> [] \<Longrightarrow> a \<le> b \<Longrightarrow> char_at a 0 \<le> char_at b 0"
  by (cases a; cases b) (auto simp add: char_at_0_Cons)

lemma sorted_names_partition:
  fixes L :: "string list"
  assumes srt: "sorted L" and first: "L \<noteq> []" "hd L = ''$''"
    and cls: "\<forall>n \<in> set (tl L). isalpha (char_at n 0) \<or> char_at n 0 = CHR ''{''"
    and i: "i < length L"
  shows "isupper (char_at (L ! i) 0)
         \<longleftrightarrow> 1 \<le> i \<and> i < 1 + length (takeWhile (\<lambda>n. isupper (char_at n 0)) (tl L))"
proof -
  let ?P = "\<lambda>n. isupper (char_at n 0)"
  let ?k = "length (takeWhile ?P (tl L))"
  have L0: "L ! 0 = ''$''" using first by (simp add: hd_conv_nth)
  have tl_nth: "\<And>j. j < length (tl L) \<Longrightarrow> tl L ! j = L ! Suc j"
    by (simp add: nth_tl)
  have nonempty: "\<And>j. 1 \<le> j \<Longrightarrow> j < length L \<Longrightarrow> L ! j \<noteq> []"
  proof -
    fix j assume j: "1 \<le> j" "j < length L"
    then have "L ! j \<in> set (tl L)"
      using tl_nth [of "j - 1"] by (metis One_nat_def Suc_pred le_simps(3) length_tl less_diff_conv nth_mem Suc_eq_plus1)
    with cls have "isalpha (char_at (L ! j) 0) \<or> char_at (L ! j) 0 = CHR ''{''" by blast
    then show "L ! j \<noteq> []"
      by (auto simp add: char_at_0_Nil isalpha_def initial_classes)
  qed
  show ?thesis
  proof
    assume up: "isupper (char_at (L ! i) 0)"
    have i1: "1 \<le> i"
    proof (rule ccontr)
      assume "\<not> 1 \<le> i"
      then have "i = 0" by simp
      with up L0 show False by (simp add: char_at_0_Cons initial_classes)
    qed
    have "i < 1 + ?k"
    proof (rule ccontr)
      assume "\<not> i < 1 + ?k"
      then have ki: "?k + 1 \<le> i" by simp
      then have klen: "?k < length (tl L)" using i by simp
      then have notP: "\<not> ?P (tl L ! ?k)" by (rule nth_length_takeWhile)
      let ?j = "Suc ?k"
      have j: "1 \<le> ?j" "?j < length L" "?j \<le> i" using klen ki by simp_all
      have mem: "L ! ?j \<in> set (tl L)" using tl_nth [OF klen] klen by (metis nth_mem)
      have notup: "\<not> isupper (char_at (L ! ?j) 0)" using notP tl_nth [OF klen] by simp
      with cls mem have big: "CHR ''Z'' < char_at (L ! ?j) 0"
        by (auto simp add: isalpha_def initial_classes)
      have "L ! ?j \<le> L ! i" using srt j i by (simp add: sorted_nth_mono)
      then have "char_at (L ! ?j) 0 \<le> char_at (L ! i) 0"
        using nonempty [OF j(1) j(2)] nonempty [OF i1 i] by (intro initial_le)
      with big isupper_le [OF up] show False by simp
    qed
    with i1 show "1 \<le> i \<and> i < 1 + ?k" by simp
  next
    assume a: "1 \<le> i \<and> i < 1 + ?k"
    then have "i - 1 < ?k" by auto
    then have "takeWhile ?P (tl L) ! (i - 1) \<in> set (takeWhile ?P (tl L))" by simp
    then have "?P (takeWhile ?P (tl L) ! (i - 1))" by (blast dest: set_takeWhileD)
    moreover have "takeWhile ?P (tl L) ! (i - 1) = tl L ! (i - 1)"
      using \<open>i - 1 < ?k\<close> by (rule takeWhile_nth)
    moreover have "tl L ! (i - 1) = L ! i" using a i tl_nth [of "i - 1"] by auto
    ultimately show "isupper (char_at (L ! i) 0)" by simp
  qed
qed


lemma map_name_index:
  "map sym_name (map (\<lambda>(i, s). s\<lparr>sym_index := int i\<rparr>) (enumerate n xs)) = map sym_name xs"
  by (induction xs arbitrary: n) simp_all

lemma dollar_least:
  assumes "n = ''$'' \<or> isalpha (char_at n 0) \<or> n = ''{default}''"
  shows "''$'' \<le> n"
proof -
  consider "n = ''$''" | "isalpha (char_at n 0)" | "n = ''{default}''" using assms by blast
  then show ?thesis
  proof cases
    case 2
    then obtain c r where n: "n = c # r"
      by (cases n) (auto simp add: char_at_0_Nil isalpha_def initial_classes)
    with 2 have "CHR ''$'' < c"
      by (auto simp add: char_at_0_Cons isalpha_def initial_classes)
    then show ?thesis using n by simp
  next
    case 3
    then show ?thesis using initial_classes(10) by simp
  qed simp
qed


subsection \<open>The order of the symbols\<close>

text \<open>
  Claim C7.  After \<^verbatim>\<open>main\<close> has sorted and indexed the symbols of a parsed grammar,
  the names of the array are the sorted list of all names (the order of \<^verbatim>\<open>strcmp\<close>,
  with \<^verbatim>\<open>{default}\<close> added), the index field of every symbol is its position,
  \<^verbatim>\<open>$\<close> is at position 0, and the symbols whose names begin with an upper-case letter
  are exactly those at the positions from 1 up to \<^verbatim>\<open>nterminal\<close>, \<^verbatim>\<open>nterminal\<close> excluded.
\<close>

theorem main_symbols_order:
  assumes "parsed_table x2a"
  shows "case main_symbols x2a of
           (syms, nsymbol, nterminal) \<Rightarrow>
             length syms = length x2a + 1 \<and> nsymbol = int (length x2a)
             \<and> map sym_name syms = sort (map sym_name x2a @ [''{default}''])
             \<and> (\<forall>i < length syms. sym_index (syms ! i) = int i)
             \<and> sym_name (syms ! 0) = ''$''
             \<and> (\<forall>i < length syms.
                   isupper (char_at (sym_name (syms ! i)) 0) \<longleftrightarrow> 1 \<le> i \<and> int i < nterminal)"
proof -
  from assms have dist: "distinct (map sym_name x2a)"
    and cstr: "\<forall>s \<in> set x2a. CHR 0x00 \<notin> set (sym_name s)"
    and dollar: "''$'' \<in> set (map sym_name x2a)"
    and alpha: "\<forall>s \<in> set x2a. sym_name s = ''$'' \<or> isalpha (char_at (sym_name s) 0)"
    by (simp_all add: parsed_table_def list_all_iff)
  define dflt where "dflt = \<lparr>sym_name = ''{default}'', sym_index = 0,
      sym_type = (if isupper (char_at ''{default}'' 0) then TERMINAL else NONTERMINAL),
      sym_prec = - 1, sym_assoc = UNK\<rparr>"
  define syms where
    "syms = map (\<lambda>(i, s). s\<lparr>sym_index := int i\<rparr>) (enumerate 0 (sort_key sym_name (x2a @ [dflt])))"
  define L where "L = sort (map sym_name x2a @ [''{default}''])"
  let ?P = "\<lambda>n. isupper (char_at n 0)"
  have fresh: "''{default}'' \<notin> sym_name ` set x2a"
  proof
    assume "''{default}'' \<in> sym_name ` set x2a"
    then obtain s where "s \<in> set x2a" "sym_name s = ''{default}''" by auto
    with alpha have "isalpha (char_at ''{default}'' 0)" by force
    then show False by (simp add: char_at_0_Cons isalpha_def initial_classes)
  qed
  then have "Symbol_find x2a ''{default}'' = None"
    by (simp add: Symbol_find_None)
  then have new: "Symbol_new ''{default}'' x2a = (length x2a, x2a @ [dflt])"
    by (simp add: Symbol_new_def dflt_def)
  have cstr': "\<forall>b \<in> set (x2a @ [dflt]). CHR 0x00 \<notin> set (sym_name b)"
    using cstr by (auto simp add: dflt_def)
  have main: "main_symbols x2a = (syms, int (length x2a), int (nterminal_scan syms 1))"
    by (simp add: main_symbols_def new Let_def qsort_sort_key [OF cstr'] syms_def)
  have dname: "sym_name dflt = ''{default}''"
    by (simp add: dflt_def)
  have "map sym_name syms = sort (map sym_name (x2a @ [dflt]))"
    unfolding syms_def by (simp only: map_name_index map_sort_key)
  then have names: "map sym_name syms = L"
    by (simp add: L_def dname)
  have len: "length syms = length x2a + 1"
    by (simp add: syms_def)
  have idx: "\<forall>i < length syms. sym_index (syms ! i) = int i"
    by (simp add: syms_def nth_enumerate_eq)
  have srt: "sorted L" by (simp add: L_def)
  have setL: "set L = insert ''{default}'' (sym_name ` set x2a)" by (auto simp add: L_def)
  have distL: "distinct L" using dist fresh by (simp add: L_def)
  have ne: "L \<noteq> []" using len names by auto
  have least: "\<forall>n \<in> set L. ''$'' \<le> n"
    using alpha setL by (auto intro: dollar_least)
  have "hd L \<in> set L" using ne by simp
  moreover have "hd L \<le> ''$''"
  proof -
    from dollar setL have "''$'' \<in> set L" by auto
    then obtain j where "j < length L" "L ! j = ''$''" by (auto simp add: in_set_conv_nth)
    then show ?thesis using srt ne sorted_nth_mono [of L 0 j] by (simp add: hd_conv_nth)
  qed
  ultimately have hd: "hd L = ''$''" using least by (simp add: antisym)
  have cls: "\<forall>n \<in> set (tl L). isalpha (char_at n 0) \<or> char_at n 0 = CHR ''{''"
  proof
    fix n assume n: "n \<in> set (tl L)"
    then have "n \<in> set L" using ne by (simp add: list.set_sel(2))
    moreover have "n \<noteq> ''$''"
      using n distL hd ne by (metis distinct.simps(2) list.collapse)
    ultimately show "isalpha (char_at n 0) \<or> char_at n 0 = CHR ''{''"
      using alpha setL by (auto simp add: char_at_0_Cons)
  qed
  have tl: "tl L = map sym_name (drop 1 syms)"
    by (simp add: names [symmetric] drop_Suc map_tl)
  have scan: "nterminal_scan syms 1 = 1 + length (takeWhile ?P (tl L))"
    by (simp add: nterminal_scan_takeWhile tl takeWhile_map comp_def)
  have part: "\<forall>i < length syms.
       isupper (char_at (sym_name (syms ! i)) 0)
       \<longleftrightarrow> 1 \<le> i \<and> int i < int (nterminal_scan syms 1)"
  proof (intro allI impI)
    fix i assume i: "i < length syms"
    then have iL: "i < length L" using names by (metis length_map)
    have "sym_name (syms ! i) = L ! i" using i names by (metis nth_map)
    then show "isupper (char_at (sym_name (syms ! i)) 0)
       \<longleftrightarrow> 1 \<le> i \<and> int i < int (nterminal_scan syms 1)"
      using sorted_names_partition [OF srt ne hd cls iL] scan by auto
  qed
  have first: "sym_name (syms ! 0) = ''$''"
    using hd ne names len by (metis hd_conv_nth length_greater_0_conv length_map nth_map)
  show ?thesis
    unfolding main using len names idx first part by (simp add: L_def)
qed


text \<open>The theorem at the table of the grammar with \<^verbatim>\<open>PLUS\<close> and \<^verbatim>\<open>INT\<close>.\<close>

theorem main_symbols_order_witness:
  "parsed_table expr_x2a
   \<and> map sym_name (fst (main_symbols expr_x2a))
     = [''$'', ''INT'', ''PLUS'', ''error'', ''expr'', ''{default}'']
   \<and> map sym_index (fst (main_symbols expr_x2a)) = [0, 1, 2, 3, 4, 5]
   \<and> snd (main_symbols expr_x2a) = (5, 3)
   \<and> sym_index (fst (main_symbols expr_x2a) ! 2) = 2
   \<and> isupper (char_at (sym_name (fst (main_symbols expr_x2a) ! 2)) 0)
   \<and> \<not> isupper (char_at (sym_name (fst (main_symbols expr_x2a) ! 3)) 0)"
proof -
  have tbl: "parsed_table expr_x2a"
    by code_simp
  have names: "map sym_name (fst (main_symbols expr_x2a))
     = [''$'', ''INT'', ''PLUS'', ''error'', ''expr'', ''{default}'']"
    and indices: "map sym_index (fst (main_symbols expr_x2a)) = [0, 1, 2, 3, 4, 5]"
    and counts: "snd (main_symbols expr_x2a) = (5, 3)"
    by code_simp+
  obtain syms where m: "main_symbols expr_x2a = (syms, 5, 3)"
    using counts by (cases "main_symbols expr_x2a") simp
  have "length (map sym_name syms) = 6"
    using names m by simp
  then have len: "length syms = 6"
    by simp
  from main_symbols_order [OF tbl] m
  have "\<forall>i < length syms. sym_index (syms ! i) = int i"
    and "\<forall>i < length syms. isupper (char_at (sym_name (syms ! i)) 0) \<longleftrightarrow> 1 \<le> i \<and> int i < 3"
    by simp_all
  then have "sym_index (syms ! 2) = 2" "isupper (char_at (sym_name (syms ! 2)) 0)"
    "\<not> isupper (char_at (sym_name (syms ! 3)) 0)"
    using len by simp_all
  then show ?thesis
    using tbl names indices counts m by simp
qed


section \<open>The exit status of \<^verbatim>\<open>main\<close>\<close>

text \<open>The variables that \<^verbatim>\<open>optinit\<close> fills from the command line, and \<^verbatim>\<open>optnargs()\<close>.\<close>

record options =
  opt_version :: bool
  opt_nargs :: int
  opt_rpflag :: bool
  opt_compress :: bool
  opt_quiet :: bool
  opt_statistics :: bool
  opt_mhflag :: bool

text \<open>
  A \<^verbatim>\<open>struct symbol *\<close> is a position of \<^verbatim>\<open>x2a->tbl\<close> while the grammar is parsed and a
  position of \<^verbatim>\<open>lem.symbols\<close> once the symbols are sorted.  In C the pointers of the rules
  stay what they are; here they move with the symbols.
\<close>

definition moved :: "symbol list \<Rightarrow> symbol list \<Rightarrow> nat \<Rightarrow> nat" where
  "moved x2a syms p = (case Symbol_find syms (sym_name (x2a ! p)) of Some i \<Rightarrow> i | None \<Rightarrow> p)"

definition moved_rule :: "symbol list \<Rightarrow> symbol list \<Rightarrow> rule \<Rightarrow> rule" where
  "moved_rule x2a syms rp =
    rp\<lparr>rule_lhs := moved x2a syms (rule_lhs rp),
       rule_rhs := map (moved x2a syms) (rule_rhs rp),
       rule_precsym := map_option (moved x2a syms) (rule_precsym rp)\<rparr>"

text \<open>What \<^verbatim>\<open>main\<close> sets up before it calls \<^verbatim>\<open>Parse\<close>.\<close>

definition main_start :: "lemon \<times> symbol list" where
  "main_start =
    (case Symbol_new ''$'' [] of
       (d, x2a1) \<Rightarrow>
         (case Symbol_new ''error'' x2a1 of
            (e, x2a2) \<Rightarrow>
              (\<lparr>lem_symbols = [], lem_rule = [], lem_nsymbol = 0, lem_nterminal = 0,
                lem_errorcnt = 0, lem_nconflict = 0, lem_errsym = Some e\<rparr>, x2a2)))"

text \<open>
  How a run ends: with a call \<^verbatim>\<open>exit(n)\<close>, not at all, or in a way the code does not
  determine because it reads a variable that was never assigned.
\<close>

datatype outcome = Exit int | Hang | Indeterminate

text \<open>
  The status of the process that its parent sees: the low eight bits of the argument
  of \<^verbatim>\<open>exit\<close>.
\<close>

definition process_status :: "outcome \<Rightarrow> int option" where
  "process_status out = (case out of Exit n \<Rightarrow> Some (n mod 256) | Hang \<Rightarrow> None | Indeterminate \<Rightarrow> None)"

text \<open>
  \<^verbatim>\<open>main\<close> from the sort of the symbols on.  With \<^verbatim>\<open>-g\<close> the grammar is reprinted and
  nothing else changes; otherwise the phases from \<^verbatim>\<open>FindRulePrecedences\<close> to
  \<^verbatim>\<open>ReportHeader\<close> run, here the parameter \<open>generate\<close>: it returns the state it leaves,
  or the status with which one of the phases calls \<^verbatim>\<open>exit\<close> (an assertion, a failed
  allocation), or \<open>None\<close> when one of them does not return.
\<close>

definition main_generate ::
  "options \<Rightarrow> (lemon \<Rightarrow> (int + lemon) option) \<Rightarrow> lemon \<Rightarrow> symbol list
   \<Rightarrow> (int + lemon) option" where
  "main_generate opts generate lem x2a =
    (case main_symbols x2a of
       (syms, nsymbol, nterminal) \<Rightarrow>
         let x2a' = snd (Symbol_new ''{default}'' x2a);
             lem1 = lem\<lparr>lem_symbols := syms, lem_nsymbol := nsymbol, lem_nterminal := nterminal,
                        lem_rule := map (moved_rule x2a' syms) (lem_rule lem),
                        lem_errsym := map_option (moved x2a' syms) (lem_errsym lem)\<rparr>
         in if opt_rpflag opts then Some (Inr lem1) else generate lem1)"

text \<open>
  \<^verbatim>\<open>main\<close>, with \<^verbatim>\<open>Parse\<close> a parameter as well: it takes the state and the symbol
  table and returns them with the rules, the symbols and the errors of the grammar
  file, or \<open>None\<close> when it does not return.  \<^verbatim>\<open>main\<close> does not assign \<^verbatim>\<open>lem.rule\<close>.
  \<^verbatim>\<open>Parse\<close> does, in its last lines, from \<^verbatim>\<open>ps.firstrule\<close>, which \<^verbatim>\<open>parseonetoken\<close>
  assigns when it is called for the first token; so \<^verbatim>\<open>lem.rule\<close> has no assigned value
  when \<^verbatim>\<open>Parse\<close> returns early, from a file it could not read, and when the file
  holds no token.  The third component of the result of \<^verbatim>\<open>Parse\<close> tells whether
  \<^verbatim>\<open>lem.rule\<close> has been assigned a value that was assigned itself; only then does
  \<open>lem_rule\<close> mean something.
\<close>

definition main ::
  "options \<Rightarrow> (lemon \<times> symbol list \<Rightarrow> (lemon \<times> symbol list \<times> bool) option)
   \<Rightarrow> (lemon \<Rightarrow> (int + lemon) option) \<Rightarrow> outcome" where
  "main opts Parse generate =
    (if opt_version opts then Exit 0
     else if opt_nargs opts \<noteq> 1 then Exit 1
     else
       case Parse main_start of
         None \<Rightarrow> Hang
       | Some (lem, x2a, assigned) \<Rightarrow>
           if lem_errorcnt lem \<noteq> 0 then Exit (lem_errorcnt lem)
           else if \<not> assigned then Indeterminate
           else if lem_rule lem = [] then Exit 1
           else
             (case main_generate opts generate lem x2a of
                None \<Rightarrow> Hang
              | Some (Inl status) \<Rightarrow> Exit status
              | Some (Inr lem') \<Rightarrow> Exit (lem_errorcnt lem' + lem_nconflict lem')))"

definition run_opts :: options where
  "run_opts = \<lparr>opt_version = False, opt_nargs = 1, opt_rpflag = False, opt_compress = False,
                opt_quiet = False, opt_statistics = False, opt_mhflag = False\<rparr>"

text \<open>
  Runs to evaluate on: a grammar file with \<open>n\<close> errors, a file with the rules
  \<^verbatim>\<open>expr ::= expr PLUS expr.  expr ::= INT.\<close>, a file without a token, and phases that
  find one conflict or none.
\<close>

definition parse_errors :: "int \<Rightarrow> lemon \<times> symbol list \<Rightarrow> (lemon \<times> symbol list \<times> bool) option" where
  "parse_errors n start = Some ((fst start)\<lparr>lem_errorcnt := n\<rparr>, snd start, True)"

definition parse_expr :: "lemon \<times> symbol list \<Rightarrow> (lemon \<times> symbol list \<times> bool) option" where
  "parse_expr start =
    Some ((fst start)\<lparr>lem_rule := [mk_rule 3 [3, 2, 3] None 0, mk_rule 3 [4] None 1]\<rparr>,
          expr_x2a, True)"

definition parse_no_token :: "lemon \<times> symbol list \<Rightarrow> (lemon \<times> symbol list \<times> bool) option" where
  "parse_no_token start = Some (fst start, snd start, False)"

definition parse_no_rule :: "lemon \<times> symbol list \<Rightarrow> (lemon \<times> symbol list \<times> bool) option" where
  "parse_no_rule start = Some (fst start, snd start, True)"

definition one_conflict :: "lemon \<Rightarrow> (int + lemon) option" where
  "one_conflict lem = Some (Inr (lem\<lparr>lem_nconflict := lem_nconflict lem + 1\<rparr>))"

definition no_conflict :: "lemon \<Rightarrow> (int + lemon) option" where
  "no_conflict lem = Some (Inr lem)"

text \<open>
  Claim C3, as amended.  On a run with one file argument and without \<^verbatim>\<open>-x\<close> from whose
  call of \<^verbatim>\<open>Parse\<close> \<^verbatim>\<open>main\<close> gets control back, the exit status of the process is the
  argument of \<^verbatim>\<open>exit\<close> modulo 256.  When the parser has counted errors the argument is
  their number, whatever the later phases would do.  When it has counted none and
  \<^verbatim>\<open>lem.rule\<close> was never assigned (no token in the file), the code does not determine
  how the run ends.  When it has counted none and the grammar has no rule, the argument
  is 1.  When the grammar has rules, the phases return and the sum of the error
  counter and the conflict counter they leave is in the range of \<^verbatim>\<open>int\<close>, the argument is
  that sum; if moreover neither counter is negative and the sum is below 256, the
  exit status is the sum, and it is zero exactly when both counters are zero.
\<close>

theorem main_exit_status:
  assumes "\<not> opt_version opts" and "opt_nargs opts = 1"
    and "Parse main_start = Some (lem, x2a, assigned)"
  shows "(lem_errorcnt lem \<noteq> 0 \<longrightarrow>
            main opts Parse generate = Exit (lem_errorcnt lem)
            \<and> process_status (main opts Parse generate) = Some (lem_errorcnt lem mod 256))
       \<and> (lem_errorcnt lem = 0 \<and> \<not> assigned \<longrightarrow> main opts Parse generate = Indeterminate)
       \<and> (lem_errorcnt lem = 0 \<and> assigned \<and> lem_rule lem = [] \<longrightarrow>
            main opts Parse generate = Exit 1
            \<and> process_status (main opts Parse generate) = Some 1)
       \<and> (lem_errorcnt lem = 0 \<and> assigned \<and> lem_rule lem \<noteq> []
            \<and> main_generate opts generate lem x2a = Some (Inr lem')
            \<and> - 2147483648 \<le> lem_errorcnt lem' + lem_nconflict lem'
            \<and> lem_errorcnt lem' + lem_nconflict lem' \<le> 2147483647 \<longrightarrow>
            main opts Parse generate = Exit (lem_errorcnt lem' + lem_nconflict lem')
            \<and> process_status (main opts Parse generate)
                = Some ((lem_errorcnt lem' + lem_nconflict lem') mod 256)
            \<and> (0 \<le> lem_errorcnt lem' \<and> 0 \<le> lem_nconflict lem'
                 \<and> lem_errorcnt lem' + lem_nconflict lem' < 256 \<longrightarrow>
                 process_status (main opts Parse generate)
                   = Some (lem_errorcnt lem' + lem_nconflict lem')
                 \<and> (process_status (main opts Parse generate) = Some 0
                    \<longleftrightarrow> lem_errorcnt lem' = 0 \<and> lem_nconflict lem' = 0)))"
  using assms by (auto simp add: main_def process_status_def)

text \<open>
  The theorem at six runs: a grammar with two errors and one with 256, whose exit
  status is 0; a file without a token; a file without a rule; and the grammar of
  \<^verbatim>\<open>expr\<close> with phases that count one conflict, and none.
\<close>

theorem main_exit_status_witness:
  "\<not> opt_version run_opts \<and> opt_nargs run_opts = 1
   \<and> process_status (main run_opts (parse_errors 2) one_conflict) = Some 2
   \<and> main run_opts (parse_errors 256) one_conflict = Exit 256
   \<and> process_status (main run_opts (parse_errors 256) one_conflict) = Some 0
   \<and> main run_opts parse_no_token one_conflict = Indeterminate
   \<and> process_status (main run_opts parse_no_rule one_conflict) = Some 1
   \<and> process_status (main run_opts parse_expr one_conflict) = Some 1
   \<and> process_status (main run_opts parse_expr no_conflict) = Some 0"
proof -
  have o: "\<not> opt_version run_opts" "opt_nargs run_opts = 1"
    by (simp_all add: run_opts_def)
  obtain lem where lem: "lem = fst (the (parse_expr main_start))" by simp
  have p: "parse_expr main_start = Some (lem, expr_x2a, True)"
    by (simp add: lem parse_expr_def)
  have l: "lem_errorcnt lem = 0" "lem_rule lem \<noteq> []" "lem_nconflict lem = 0"
    by (simp_all add: lem parse_expr_def main_start_def Symbol_new_def)
  obtain syms n t where ms: "main_symbols expr_x2a = (syms, n, t)"
    by (cases "main_symbols expr_x2a") auto
  have "\<exists>l1. main_generate run_opts one_conflict lem expr_x2a = Some (Inr l1)
          \<and> lem_errorcnt l1 = 0 \<and> lem_nconflict l1 = 1"
    using l by (simp add: main_generate_def ms one_conflict_def run_opts_def Let_def)
  then obtain l1 where g1: "main_generate run_opts one_conflict lem expr_x2a = Some (Inr l1)"
    "lem_errorcnt l1 = 0" "lem_nconflict l1 = 1"
    by blast
  have "\<exists>l0. main_generate run_opts no_conflict lem expr_x2a = Some (Inr l0)
          \<and> lem_errorcnt l0 = 0 \<and> lem_nconflict l0 = 0"
    using l by (simp add: main_generate_def ms no_conflict_def run_opts_def Let_def)
  then obtain l0 where g0: "main_generate run_opts no_conflict lem expr_x2a = Some (Inr l0)"
    "lem_errorcnt l0 = 0" "lem_nconflict l0 = 0"
    by blast
  have e: "parse_errors k main_start
             = Some ((fst main_start)\<lparr>lem_errorcnt := k\<rparr>, snd main_start, True)" for k
    by (simp add: parse_errors_def)
  have nt: "parse_no_token main_start = Some (fst main_start, snd main_start, False)"
    by (simp add: parse_no_token_def)
  have nr: "parse_no_rule main_start = Some (fst main_start, snd main_start, True)"
    by (simp add: parse_no_rule_def)
  have s: "lem_errorcnt (fst main_start) = 0" "lem_rule (fst main_start) = []"
    by (simp_all add: main_start_def Symbol_new_def)
  have a: "process_status (main run_opts (parse_errors 2) one_conflict) = Some 2"
    using main_exit_status [where Parse = "parse_errors 2" and generate = one_conflict,
        OF o e [of 2]] by (simp add: process_status_def)
  have b: "main run_opts (parse_errors 256) one_conflict = Exit 256"
    "process_status (main run_opts (parse_errors 256) one_conflict) = Some 0"
    using main_exit_status [where Parse = "parse_errors 256" and generate = one_conflict,
        OF o e [of 256]] by (simp_all add: process_status_def)
  have c: "main run_opts parse_no_token one_conflict = Indeterminate"
    using main_exit_status [where Parse = parse_no_token and generate = one_conflict, OF o nt] s
    by simp
  have d: "process_status (main run_opts parse_no_rule one_conflict) = Some 1"
    using main_exit_status [where Parse = parse_no_rule and generate = one_conflict, OF o nr] s
    by (simp add: process_status_def)
  have f: "process_status (main run_opts parse_expr one_conflict) = Some 1"
    using main_exit_status [where Parse = parse_expr and generate = one_conflict and lem' = l1,
        OF o p] l g1 by (simp add: process_status_def)
  have g: "process_status (main run_opts parse_expr no_conflict) = Some 0"
    using main_exit_status [where Parse = parse_expr and generate = no_conflict and lem' = l0,
        OF o p] l g0 by (simp add: process_status_def)
  show ?thesis
    by (intro conjI) (rule o a b c d f g)+
qed

text \<open>
  The claim as it was stated, for every run: a grammar file without a rule and
  without an error, such as \<^verbatim>\<open>%name p\<close>, from which \<^verbatim>\<open>Parse\<close> returns with the state
  and the symbol table as they were.  Both counters are zero and the exit status is 1.
\<close>

theorem main_empty_grammar_counterexample:
  "main run_opts parse_no_rule no_conflict = Exit 1
   \<and> process_status (main run_opts parse_no_rule no_conflict) = Some 1
   \<and> lem_errorcnt (fst main_start) + lem_nconflict (fst main_start) = 0"
  by (simp add: main_def run_opts_def main_start_def Symbol_new_def parse_no_rule_def
      process_status_def)


section \<open>Compression of the action tables\<close>

text \<open>
  Configurations and states.  A set of terminals (\<^verbatim>\<open>char *\<close>, one flag for each
  index) is a set of numbers.  A \<^verbatim>\<open>struct config *\<close> is the position of the
  configuration among the configurations allocated so far; a list linked by \<^verbatim>\<open>next\<close>,
  by \<^verbatim>\<open>bp\<close> or by the \<^verbatim>\<open>next\<close> of a \<^verbatim>\<open>struct plink\<close> is the list of these pointers, so
  that the fields \<^verbatim>\<open>bp\<close> and \<^verbatim>\<open>cfp\<close> of a state are two such lists.  The fields of a
  state that only the emitter of the tables reads are left out.
\<close>

datatype cfgstatus = COMPLETE | INCOMPLETE

record config =
  cfg_rp :: nat
  cfg_dot :: nat
  cfg_fws :: "int set"
  cfg_fplp :: "nat list"
  cfg_bplp :: "nat list"
  cfg_stp :: "nat option"
  cfg_status :: cfgstatus

record state =
  st_bp :: "nat list"
  st_cfp :: "nat list"
  st_index :: int
  st_ap :: "action list"

text \<open>
  \<^verbatim>\<open>actioncmp\<close>: by the index of the lookahead, then by the type, then by the index of
  the rule.  Its assertion fails (\<^verbatim>\<open>exit(1)\<close>) on two actions of the same lookahead
  and type that are not both \<^verbatim>\<open>REDUCE\<close>.
\<close>

definition actioncmp :: "lemon \<Rightarrow> action \<Rightarrow> action \<Rightarrow> int + int" where
  "actioncmp lemp ap1 ap2 =
    (let rc = sym_index (lem_symbols lemp ! act_sp ap1) - sym_index (lem_symbols lemp ! act_sp ap2);
         rc = (if rc = 0 then e_action_int (act_type ap1) - e_action_int (act_type ap2) else rc)
     in if rc = 0 then
          (if \<not> (act_type ap1 = REDUCE \<and> act_type ap2 = REDUCE) then Inl 1
           else Inr (rule_index (lem_rule lemp ! act_x ap1) - rule_index (lem_rule lemp ! act_x ap2)))
        else Inr rc)"

text \<open>
  \<^verbatim>\<open>merge\<close> and \<^verbatim>\<open>msort\<close> on a linked list, here a list: \<^verbatim>\<open>msort\<close> moves the elements
  one by one into the array \<^verbatim>\<open>set\<close> of \<^verbatim>\<open>LISTSIZE\<close> sorted lists (an empty list for a
  null pointer), merging as long as the slot is taken, and merges the slots at the
  end.  A comparison that exits ends the sort.
\<close>

fun merge :: "('a \<Rightarrow> 'a \<Rightarrow> int + int) \<Rightarrow> 'a list \<Rightarrow> 'a list \<Rightarrow> int + 'a list" where
  "merge cmp [] b = Inr b"
| "merge cmp (x # a) [] = Inr (x # a)"
| "merge cmp (x # a) (y # b) =
    (case cmp x y of
       Inl status \<Rightarrow> Inl status
     | Inr c \<Rightarrow>
         if c < 0 then
           (case merge cmp a (y # b) of Inl status \<Rightarrow> Inl status | Inr l \<Rightarrow> Inr (x # l))
         else
           (case merge cmp (x # a) b of Inl status \<Rightarrow> Inl status | Inr l \<Rightarrow> Inr (y # l)))"

definition LISTSIZE :: nat where
  "LISTSIZE = 30"

function msort_carry ::
  "('a \<Rightarrow> 'a \<Rightarrow> int + int) \<Rightarrow> 'a list \<Rightarrow> 'a list list \<Rightarrow> nat \<Rightarrow> int + 'a list list" where
  "msort_carry cmp ep bins i =
    (if i < LISTSIZE - 1 \<and> bins ! i \<noteq> [] then
       (case merge cmp ep (bins ! i) of
          Inl status \<Rightarrow> Inl status
        | Inr ep' \<Rightarrow> msort_carry cmp ep' (bins[i := []]) (i + 1))
     else Inr (bins[i := ep]))"
  by pat_completeness auto
termination
  by (relation "measure (\<lambda>(cmp, ep, bins, i). LISTSIZE - 1 - i)") auto

declare msort_carry.simps [simp del]

fun msort_fill ::
  "('a \<Rightarrow> 'a \<Rightarrow> int + int) \<Rightarrow> 'a list \<Rightarrow> 'a list list \<Rightarrow> int + 'a list list" where
  "msort_fill cmp [] bins = Inr bins"
| "msort_fill cmp (x # list) bins =
    (case msort_carry cmp [x] bins 0 of
       Inl status \<Rightarrow> Inl status
     | Inr bins' \<Rightarrow> msort_fill cmp list bins')"

fun msort_collect ::
  "('a \<Rightarrow> 'a \<Rightarrow> int + int) \<Rightarrow> 'a list \<Rightarrow> 'a list list \<Rightarrow> int + 'a list" where
  "msort_collect cmp ep [] = Inr ep"
| "msort_collect cmp ep (s # bins) =
    (if s \<noteq> [] then
       (case merge cmp ep s of
          Inl status \<Rightarrow> Inl status
        | Inr ep' \<Rightarrow> msort_collect cmp ep' bins)
     else msort_collect cmp ep bins)"

definition msort :: "('a \<Rightarrow> 'a \<Rightarrow> int + int) \<Rightarrow> 'a list \<Rightarrow> int + 'a list" where
  "msort cmp list =
    (case msort_fill cmp list (replicate LISTSIZE []) of
       Inl status \<Rightarrow> Inl status
     | Inr bins \<Rightarrow> msort_collect cmp [] bins)"

definition Action_sort :: "lemon \<Rightarrow> action list \<Rightarrow> int + action list" where
  "Action_sort lemp ap = msort (actioncmp lemp) ap"

text \<open>
  The loops of \<^verbatim>\<open>CompressTables\<close> on the actions of one state: the first \<^verbatim>\<open>REDUCE\<close>
  action with what is before and behind it; whether all other \<^verbatim>\<open>REDUCE\<close> actions use
  the rule \<open>rp\<close> (the loop breaks and \<^verbatim>\<open>ap\<close> is not null, or it counts them); and
  the change of the remaining \<^verbatim>\<open>REDUCE\<close> actions into \<^verbatim>\<open>NOT_USED\<close>.
\<close>

fun first_REDUCE :: "action list \<Rightarrow> (action list \<times> action \<times> action list) option" where
  "first_REDUCE [] = None"
| "first_REDUCE (ap # next) =
    (if act_type ap \<noteq> REDUCE then
       map_option (\<lambda>(before, r, after). (ap # before, r, after)) (first_REDUCE next)
     else Some ([], ap, next))"

fun same_rule :: "nat \<Rightarrow> action list \<Rightarrow> int \<Rightarrow> bool \<times> int" where
  "same_rule rp [] cnt = (False, cnt)"
| "same_rule rp (ap # next) cnt =
    (if act_type ap = REDUCE then
       (if act_x ap \<noteq> rp then (True, cnt) else same_rule rp next (cnt + 1))
     else same_rule rp next cnt)"

definition not_used :: "action \<Rightarrow> action" where
  "not_used ap = (if act_type ap = REDUCE then ap\<lparr>act_type := NOT_USED\<rparr> else ap)"

text \<open>
  The body of the loop of \<^verbatim>\<open>CompressTables\<close> for one state, and the loop over the
  states.  \<^verbatim>\<open>Symbol_new("{default}")\<close> finds the symbol that \<^verbatim>\<open>main\<close> has made.
\<close>

definition CompressTables_state :: "lemon \<Rightarrow> state \<Rightarrow> int + (lemon \<times> state)" where
  "CompressTables_state lemp stp =
    (case first_REDUCE (st_ap stp) of
       None \<Rightarrow> Inr (lemp, stp)
     | Some (before, ap, after) \<Rightarrow>
         (case same_rule (act_x ap) after 1 of
            (broke, cnt) \<Rightarrow>
              if broke \<or> cnt = 1 then Inr (lemp, stp)
              else
                (case Symbol_new ''{default}'' (lem_symbols lemp) of
                   (dflt, syms) \<Rightarrow>
                     let lemp' = lemp\<lparr>lem_symbols := syms\<rparr> in
                     (case Action_sort lemp' (before @ ap\<lparr>act_sp := dflt\<rparr> # map not_used after) of
                        Inl status \<Rightarrow> Inl status
                      | Inr sorted_ap \<Rightarrow> Inr (lemp', stp\<lparr>st_ap := sorted_ap\<rparr>)))))"

fun CompressTables :: "lemon \<Rightarrow> state list \<Rightarrow> int + (lemon \<times> state list)" where
  "CompressTables lemp [] = Inr (lemp, [])"
| "CompressTables lemp (stp # states) =
    (case CompressTables_state lemp stp of
       Inl status \<Rightarrow> Inl status
     | Inr (lemp', stp') \<Rightarrow>
         (case CompressTables lemp' states of
            Inl status \<Rightarrow> Inl status
          | Inr (lemp'', states') \<Rightarrow> Inr (lemp'', stp' # states')))"

definition mk_state :: "action list \<Rightarrow> state" where
  "mk_state ap = \<lparr>st_bp = [], st_cfp = [], st_index = 0, st_ap = ap\<rparr>"


text \<open>
  To state what the loop does: the \<^verbatim>\<open>REDUCE\<close> actions of a list; a list is compressed
  when it has two or more of them and all of them use one rule; and the list with its
  first \<^verbatim>\<open>REDUCE\<close> action moved to the lookahead \<open>dflt\<close> and every other \<^verbatim>\<open>REDUCE\<close>
  action turned into \<^verbatim>\<open>NOT_USED\<close>.
\<close>

definition reduces :: "action list \<Rightarrow> action list" where
  "reduces ap = filter (\<lambda>a. act_type a = REDUCE) ap"

definition compressible :: "action list \<Rightarrow> bool" where
  "compressible ap =
    (2 \<le> length (reduces ap) \<and> list_all (\<lambda>a. act_x a = act_x (hd (reduces ap))) (reduces ap))"

fun collapse :: "nat \<Rightarrow> action list \<Rightarrow> action list" where
  "collapse dflt [] = []"
| "collapse dflt (ap # next) =
    (if act_type ap = REDUCE then ap\<lparr>act_sp := dflt\<rparr> # map not_used next
     else ap # collapse dflt next)"

text \<open>
  Two states of the grammar of expressions: one whose three \<^verbatim>\<open>REDUCE\<close> actions use
  the rules 3, 3 and 2, and one whose two \<^verbatim>\<open>REDUCE\<close> actions both use rule 3.
\<close>

definition mixed_state :: state where
  "mixed_state = mk_state [mk_action 1 REDUCE 3, mk_action 4 REDUCE 3, mk_action 5 REDUCE 2]"

definition single_state :: state where
  "single_state =
    mk_state [mk_action 1 REDUCE 3, mk_action 2 SHIFT 4, mk_action 4 REDUCE 3, mk_action 5 SHIFT 2]"

text \<open>What \<^verbatim>\<open>msort\<close> keeps while it fills its slots: slot \<open>j\<close> is empty or holds at least \<open>2 ^ j\<close> elements.\<close>

definition bins_inv :: "'a list list \<Rightarrow> bool" where
  "bins_inv bins =
    (length bins = LISTSIZE \<and> (\<forall>j < LISTSIZE. bins ! j \<noteq> [] \<longrightarrow> 2 ^ j \<le> length (bins ! j)))"

subsection \<open>The loops and the sort\<close>

lemma first_REDUCE_None: "first_REDUCE ap = None \<longleftrightarrow> reduces ap = []"
  by (induction ap) (auto simp add: reduces_def)

lemma first_REDUCE_Some:
  "first_REDUCE ap = Some (before, r, after) \<Longrightarrow>
   reduces ap = r # reduces after \<and> act_type r = REDUCE
   \<and> collapse dflt ap = before @ r\<lparr>act_sp := dflt\<rparr> # map not_used after"
proof (induction ap arbitrary: before)
  case Nil
  then show ?case by simp
next
  case (Cons a ap)
  show ?case
  proof (cases "act_type a = REDUCE")
    case True
    with Cons.prems show ?thesis by (auto simp add: reduces_def)
  next
    case False
    with Cons.prems obtain b where b: "first_REDUCE ap = Some (b, r, after)" "before = a # b"
      by auto
    from Cons.IH [OF b(1)] False b(2) show ?thesis by (simp add: reduces_def)
  qed
qed

lemma same_rule_result:
  "same_rule rp ap cnt =
    (\<not> list_all (\<lambda>a. act_x a = rp) (reduces ap),
     if list_all (\<lambda>a. act_x a = rp) (reduces ap) then cnt + int (length (reduces ap))
     else snd (same_rule rp ap cnt))"
  by (induction ap arbitrary: cnt) (auto simp add: reduces_def)

lemma mset_merge: "merge cmp a b = Inr l \<Longrightarrow> mset l = mset a + mset b"
proof (induction cmp a b arbitrary: l rule: merge.induct)
  case (3 cmp x a y b)
  then show ?case
    by (auto split: sum.splits if_splits)
qed auto

lemma mset_concat_update:
  "i < length bins \<Longrightarrow>
   mset (concat (bins[i := l])) + mset (bins ! i) = mset (concat bins) + mset l"
proof (induction bins arbitrary: i)
  case Nil
  then show ?case by simp
next
  case (Cons b bins)
  then show ?case by (cases i) simp_all
qed

lemma mset_msort_carry:
  assumes "msort_carry cmp ep bins i = Inr bins'" and "bins_inv bins" and "i < LISTSIZE"
    and "2 ^ i \<le> length ep"
    and "length ep + length (concat bins) < 2 ^ (LISTSIZE - 1)"
  shows "mset (concat bins') = mset ep + mset (concat bins) \<and> bins_inv bins'"
  using assms
proof (induction cmp ep bins i arbitrary: bins' rule: msort_carry.induct)
  case (1 cmp ep bins i)
  have len: "length bins = LISTSIZE" and i: "i < length bins"
    using "1.prems"(2,3) by (simp_all add: bins_inv_def)
  show ?case
  proof (cases "i < LISTSIZE - 1 \<and> bins ! i \<noteq> []")
    case True
    with "1.prems"(1) obtain ep' where m: "merge cmp ep (bins ! i) = Inr ep'"
      and r: "msort_carry cmp ep' (bins[i := []]) (i + 1) = Inr bins'"
      by (subst (asm) msort_carry.simps) (auto split: sum.splits)
    have ep': "mset ep' = mset ep + mset (bins ! i)"
      using m by (rule mset_merge)
    then have lep': "length ep' = length ep + length (bins ! i)"
      by (metis size_mset size_union)
    have upd: "mset (concat (bins[i := []])) + mset (bins ! i) = mset (concat bins)"
      using mset_concat_update [OF i, of "[]"] by simp
    then have lupd: "length (concat (bins[i := []])) + length (bins ! i) = length (concat bins)"
      by (metis size_mset size_union)
    have "2 ^ i \<le> length (bins ! i)"
      using True "1.prems"(2,3) by (auto simp add: bins_inv_def)
    then have big: "2 ^ (i + 1) \<le> length ep'"
      using "1.prems"(4) lep' by simp
    have inv: "bins_inv (bins[i := []])"
      using "1.prems"(2) i by (auto simp add: bins_inv_def nth_list_update)
    have tot: "length ep' + length (concat (bins[i := []])) < 2 ^ (LISTSIZE - 1)"
      using "1.prems"(5) lep' lupd by simp
    have "mset (concat bins') = mset ep' + mset (concat (bins[i := []])) \<and> bins_inv bins'"
      using True by (intro "1.IH" [OF True m r inv _ big tot]) auto
    then show ?thesis using ep' upd by (metis add.assoc add.commute)
  next
    case False
    with "1.prems"(1) have b: "bins' = bins[i := ep]"
      by (subst (asm) msort_carry.simps) auto
    have "i < LISTSIZE - 1"
    proof (rule ccontr)
      assume "\<not> i < LISTSIZE - 1"
      then have "i = LISTSIZE - 1" using "1.prems"(3) by simp
      then have "2 ^ (LISTSIZE - 1) \<le> length ep" using "1.prems"(4) by simp
      then show False using "1.prems"(5) by simp
    qed
    with False have e: "bins ! i = []" by simp
    have "bins_inv (bins[i := ep])"
      using "1.prems"(2,4) i by (auto simp add: bins_inv_def nth_list_update)
    then show ?thesis
      using mset_concat_update [OF i, of ep] b e by simp
  qed
qed

lemma mset_msort_fill:
  assumes "msort_fill cmp list bins = Inr bins'" and "bins_inv bins"
    and "length list + length (concat bins) < 2 ^ (LISTSIZE - 1)"
  shows "mset (concat bins') = mset list + mset (concat bins) \<and> bins_inv bins'"
  using assms
proof (induction list arbitrary: bins)
  case Nil
  then show ?case by simp
next
  case (Cons x list)
  from Cons.prems(1) obtain b where c: "msort_carry cmp [x] bins 0 = Inr b"
    and f: "msort_fill cmp list b = Inr bins'"
    by (auto split: sum.splits)
  have cb: "mset (concat b) = mset [x] + mset (concat bins) \<and> bins_inv b"
    using Cons.prems(2,3) by (intro mset_msort_carry [OF c]) (simp_all add: LISTSIZE_def)
  then have "length (concat b) = 1 + length (concat bins)"
    by (metis length_Cons list.size(3) size_mset size_union One_nat_def)
  then have "length list + length (concat b) < 2 ^ (LISTSIZE - 1)"
    using Cons.prems(3) by simp
  with Cons.IH [OF f] cb show ?case by simp
qed

lemma mset_msort_collect:
  "msort_collect cmp ep bins = Inr l \<Longrightarrow> mset l = mset ep + mset (concat bins)"
proof (induction bins arbitrary: ep)
  case Nil
  then show ?case by simp
next
  case (Cons b bins)
  show ?case
  proof (cases "b = []")
    case True
    with Cons show ?thesis by simp
  next
    case False
    with Cons.prems obtain ep' where m: "merge cmp ep b = Inr ep'"
      and c: "msort_collect cmp ep' bins = Inr l"
      by (auto split: sum.splits)
    from Cons.IH [OF c] mset_merge [OF m] show ?thesis by simp
  qed
qed

lemma mset_msort:
  assumes "msort cmp list = Inr l" and "length list < 2 ^ (LISTSIZE - 1)"
  shows "mset l = mset list"
proof -
  from assms(1) obtain bins where f: "msort_fill cmp list (replicate LISTSIZE []) = Inr bins"
    and c: "msort_collect cmp [] bins = Inr l"
    by (auto simp add: msort_def split: sum.splits)
  have e: "concat (replicate LISTSIZE ([]::'a list)) = []"
    by (simp add: LISTSIZE_def)
  have "bins_inv (replicate LISTSIZE ([]::'a list))"
    by (simp add: bins_inv_def)
  from mset_msort_fill [OF f this] assms(2) e have "mset (concat bins) = mset list"
    by simp
  with mset_msort_collect [OF c] show ?thesis by simp
qed


lemma CompressTables_state_unfold:
  "CompressTables_state lemp stp =
    (if compressible (st_ap stp) then
       (case Symbol_new ''{default}'' (lem_symbols lemp) of
          (dflt, syms) \<Rightarrow>
            (case Action_sort (lemp\<lparr>lem_symbols := syms\<rparr>) (collapse dflt (st_ap stp)) of
               Inl status \<Rightarrow> Inl status
             | Inr sorted_ap \<Rightarrow> Inr (lemp\<lparr>lem_symbols := syms\<rparr>, stp\<lparr>st_ap := sorted_ap\<rparr>)))
     else Inr (lemp, stp))"
proof (cases "first_REDUCE (st_ap stp)")
  case None
  then have "reduces (st_ap stp) = []" by (simp add: first_REDUCE_None)
  then have "\<not> compressible (st_ap stp)" by (simp add: compressible_def)
  then show ?thesis using None by (simp add: CompressTables_state_def)
next
  case (Some t)
  then obtain before r after where t: "first_REDUCE (st_ap stp) = Some (before, r, after)"
    by (cases t) auto
  note f = first_REDUCE_Some [OF t]
  have red: "reduces (st_ap stp) = r # reduces after" using f by simp
  let ?all = "list_all (\<lambda>a. act_x a = act_x r) (reduces after)"
  have c: "compressible (st_ap stp) \<longleftrightarrow> ?all \<and> reduces after \<noteq> []"
    unfolding compressible_def red by (cases "reduces after") auto
  obtain broke cnt where sr: "same_rule (act_x r) after 1 = (broke, cnt)"
    by (cases "same_rule (act_x r) after 1") auto
  have b: "broke \<longleftrightarrow> \<not> ?all" and n: "?all \<Longrightarrow> cnt = 1 + int (length (reduces after))"
    using sr same_rule_result [of "act_x r" after 1] by auto
  have stop: "broke \<or> cnt = 1 \<longleftrightarrow> \<not> compressible (st_ap stp)"
    using b n c by auto
  show ?thesis
  proof (cases "compressible (st_ap stp)")
    case True
    then have "\<not> (broke \<or> cnt = 1)" using stop by simp
    then show ?thesis
      using True t sr f by (simp add: CompressTables_state_def Let_def split: prod.splits)
  next
    case False
    then have "broke \<or> cnt = 1" using stop by simp
    then show ?thesis
      using False t sr by (auto simp add: CompressTables_state_def)
  qed
qed

section \<open>The conflict loop of \<^verbatim>\<open>FindActions\<close>\<close>

text \<open>
  For each state \<^verbatim>\<open>FindActions\<close> asserts that the state has actions, sorts them, and runs
  two loops: \<^verbatim>\<open>for(ap=stp->ap; ap && ap->next; ap=nap)\<close> and, inside,
  \<^verbatim>\<open>for(nap=ap->next; nap && nap->sp==ap->sp; nap=nap->next)\<close> around the statement
  \<^verbatim>\<open>lemp->nconflict += resolve_conflict(ap,nap,lemp->errsym)\<close>.  The outer loop goes on
  at the action where the inner loop stopped: \<open>ap\<close> is only ever the first action of a
  run of actions with one lookahead, and it is handed to \<^verbatim>\<open>resolve_conflict\<close> with every
  later action of the run, with the type the earlier calls have left it.  In
  \<open>FindActions_conflicts\<close> the list \<open>prev\<close> holds the runs that are done, \<open>ap\<close> is the head
  of the current run, \<open>grp\<close> the actions of the run already compared with it, and the
  last list what is still to come.
\<close>

fun FindActions_conflicts ::
  "lemon \<Rightarrow> action list \<Rightarrow> action \<Rightarrow> action list \<Rightarrow> action list \<Rightarrow> int + (lemon \<times> action list)" where
  "FindActions_conflicts lemp prev ap grp [] = Inr (lemp, prev @ ap # grp)"
| "FindActions_conflicts lemp prev ap grp (nap # rest) =
    (if act_sp nap = act_sp ap then
       (case FindActions_resolve lemp ap nap of
          Inl status \<Rightarrow> Inl status
        | Inr (lemp', ap', nap') \<Rightarrow> FindActions_conflicts lemp' prev ap' (grp @ [nap']) rest)
     else FindActions_conflicts lemp (prev @ ap # grp) nap [] rest)"

definition FindActions_state :: "lemon \<Rightarrow> state \<Rightarrow> int + (lemon \<times> state)" where
  "FindActions_state lemp stp =
    (if st_ap stp = [] then Inl 1
     else
       case Action_sort lemp (st_ap stp) of
         Inl status \<Rightarrow> Inl status
       | Inr [] \<Rightarrow> Inr (lemp, stp\<lparr>st_ap := []\<rparr>)
       | Inr (ap # rest) \<Rightarrow>
           (case FindActions_conflicts lemp [] ap [] rest of
              Inl status \<Rightarrow> Inl status
            | Inr (lemp', l) \<Rightarrow> Inr (lemp', stp\<lparr>st_ap := l\<rparr>)))"

fun FindActions_resolve_conflicts :: "lemon \<Rightarrow> state list \<Rightarrow> int + (lemon \<times> state list)" where
  "FindActions_resolve_conflicts lemp [] = Inr (lemp, [])"
| "FindActions_resolve_conflicts lemp (stp # states) =
    (case FindActions_state lemp stp of
       Inl status \<Rightarrow> Inl status
     | Inr (lemp', stp') \<Rightarrow>
         (case FindActions_resolve_conflicts lemp' states of
            Inl status \<Rightarrow> Inl status
          | Inr (lemp'', states') \<Rightarrow> Inr (lemp'', stp' # states')))"

subsection \<open>A shift and two reduces on one lookahead\<close>




subsection \<open>Three reduces on one lookahead\<close>

text \<open>
  The grammar \<^verbatim>\<open>%left LOW.  %left HIGH.  s ::= x.  s ::= y.  s ::= z.  x ::= A. [LOW]
  y ::= A. [HIGH]  z ::= A. [HIGH]\<close>.  Its state 1, reached on \<^verbatim>\<open>A\<close>, holds
  \<^verbatim>\<open>x ::= A .\<close>, \<^verbatim>\<open>y ::= A .\<close> and \<^verbatim>\<open>z ::= A .\<close>, each with the follow set \<^verbatim>\<open>$\<close>: three
  reduces on \<^verbatim>\<open>$\<close>, by the rules 3, 4 and 5.
\<close>

definition three_lemon :: lemon where
  "three_lemon =
    \<lparr>lem_symbols =
       [mk_symbol ''$'' 0 NONTERMINAL (- 1) UNK,
        mk_symbol ''A'' 1 TERMINAL (- 1) UNK,
        mk_symbol ''HIGH'' 2 TERMINAL 2 LEFT,
        mk_symbol ''LOW'' 3 TERMINAL 1 LEFT,
        mk_symbol ''error'' 4 NONTERMINAL (- 1) UNK,
        mk_symbol ''s'' 5 NONTERMINAL (- 1) UNK,
        mk_symbol ''x'' 6 NONTERMINAL (- 1) UNK,
        mk_symbol ''y'' 7 NONTERMINAL (- 1) UNK,
        mk_symbol ''z'' 8 NONTERMINAL (- 1) UNK,
        mk_symbol ''{default}'' 9 NONTERMINAL (- 1) UNK],
     lem_rule =
       [mk_rule 5 [6] None 0,
        mk_rule 5 [7] None 1,
        mk_rule 5 [8] None 2,
        mk_rule 6 [1] (Some 3) 3,
        mk_rule 7 [1] (Some 2) 4,
        mk_rule 8 [1] (Some 2) 5],
     lem_nsymbol = 9, lem_nterminal = 4, lem_errorcnt = 0, lem_nconflict = 0,
     lem_errsym = Some 4\<rparr>"

definition three_state :: state where
  "three_state =
    \<lparr>st_bp = [], st_cfp = [], st_index = 1,
     st_ap = [mk_action 0 REDUCE 5, mk_action 0 REDUCE 4, mk_action 0 REDUCE 3]\<rparr>"

text \<open>
  Claim C2 fails on this state.  The reduces by rule 4 and by rule 5 are two reduce
  actions on \<^verbatim>\<open>$\<close>, the first earlier in the sorted list, and their precedences are
  equal: the claim has the reduce by rule 5 marked \<^verbatim>\<open>CONFLICT\<close> and counted.  The loop
  compares the head of the run, the reduce by rule 3, with the reduce by rule 4 and
  makes the head \<^verbatim>\<open>RD_RESOLVED\<close>; the call on the head and the reduce by rule 5 then
  falls into the branch commented \<^verbatim>\<open>Can't happen\<close>, and the reduces by rule 4 and by
  rule 5 are never handed to \<^verbatim>\<open>resolve_conflict\<close> together.  Both stay \<^verbatim>\<open>REDUCE\<close> and
  no conflict is counted.
\<close>

theorem FindActions_state_reduce_reduce_unmarked:
  "Action_sort three_lemon (st_ap three_state)
     = Inr [mk_action 0 REDUCE 3, mk_action 0 REDUCE 4, mk_action 0 REDUCE 5]
   \<and> reduce_precsym three_lemon (mk_action 0 REDUCE 4) = Some 2
   \<and> reduce_precsym three_lemon (mk_action 0 REDUCE 5) = Some 2
   \<and> reduce_prec three_lemon (mk_action 0 REDUCE 4) = reduce_prec three_lemon (mk_action 0 REDUCE 5)
   \<and> FindActions_state three_lemon three_state
     = Inr (three_lemon,
            three_state\<lparr>st_ap := [mk_action 0 RD_RESOLVED 3, mk_action 0 REDUCE 4,
                                   mk_action 0 REDUCE 5]\<rparr>)"
  by code_simp


section \<open>The default action of a state\<close>

text \<open>
  A call of \<^verbatim>\<open>actioncmp\<close> on two actions with lookaheads of one index and with one type
  that is not \<^verbatim>\<open>REDUCE\<close> fails its assertion; a list is free of this when no two of its
  actions are such a pair.  The order that \<^verbatim>\<open>actioncmp\<close> decides: by the index of the
  lookahead, then by the type, and two \<^verbatim>\<open>REDUCE\<close> actions of one lookahead by the index
  of the rule.
\<close>

definition clash :: "lemon \<Rightarrow> action \<Rightarrow> action \<Rightarrow> bool" where
  "clash lemp a b =
    (sym_index (lem_symbols lemp ! act_sp a) = sym_index (lem_symbols lemp ! act_sp b)
     \<and> act_type a = act_type b \<and> act_type a \<noteq> REDUCE)"

definition assert_free :: "lemon \<Rightarrow> action list \<Rightarrow> bool" where
  "assert_free lemp ap = sorted_wrt (\<lambda>a b. \<not> clash lemp a b) ap"

definition action_ord :: "lemon \<Rightarrow> action \<Rightarrow> action \<Rightarrow> bool" where
  "action_ord lemp a b =
    (sym_index (lem_symbols lemp ! act_sp a) < sym_index (lem_symbols lemp ! act_sp b)
     \<or> (sym_index (lem_symbols lemp ! act_sp a) = sym_index (lem_symbols lemp ! act_sp b)
        \<and> (e_action_int (act_type a) < e_action_int (act_type b)
           \<or> (act_type a = REDUCE \<and> act_type b = REDUCE
              \<and> rule_index (lem_rule lemp ! act_x a) \<le> rule_index (lem_rule lemp ! act_x b)))))"

subsection \<open>The comparison\<close>

lemma e_action_int_inject: "e_action_int s = e_action_int t \<longleftrightarrow> s = t"
  by (cases s; cases t) simp_all

lemma actioncmp_Inr:
  "actioncmp lemp a b = Inr c \<Longrightarrow>
   (c < 0 \<longrightarrow> action_ord lemp a b) \<and> (0 \<le> c \<longrightarrow> action_ord lemp b a)"
  by (auto simp add: actioncmp_def action_ord_def Let_def e_action_int_inject split: if_splits)

lemma actioncmp_Inl: "actioncmp lemp a b = Inl n \<Longrightarrow> n = 1"
  by (auto simp add: actioncmp_def Let_def split: if_splits)

lemma actioncmp_clash: "\<not> clash lemp a b \<Longrightarrow> \<exists>c. actioncmp lemp a b = Inr c"
  by (auto simp add: actioncmp_def clash_def Let_def e_action_int_inject)

lemma action_ord_trans:
  "action_ord lemp a b \<Longrightarrow> action_ord lemp b c \<Longrightarrow> action_ord lemp a c"
  by (auto simp add: action_ord_def e_action_int_inject)

lemma action_ord_clash: "action_ord lemp a b \<Longrightarrow> \<not> clash lemp a b"
  by (auto simp add: action_ord_def clash_def)

lemma clash_sym: "clash lemp a b \<Longrightarrow> clash lemp b a"
  by (auto simp add: clash_def)

subsection \<open>The result of the sort is ordered\<close>

text \<open>
  A comparison decides an order when a negative result puts the first argument before
  the second, any other result the second before the first, and the order is
  transitive.
\<close>

definition cmp_orders :: "('a \<Rightarrow> 'a \<Rightarrow> int + int) \<Rightarrow> ('a \<Rightarrow> 'a \<Rightarrow> bool) \<Rightarrow> bool" where
  "cmp_orders cmp le =
    ((\<forall>x y c. cmp x y = Inr c \<longrightarrow> (c < 0 \<longrightarrow> le x y) \<and> (0 \<le> c \<longrightarrow> le y x))
     \<and> (\<forall>x y z. le x y \<longrightarrow> le y z \<longrightarrow> le x z))"

lemma merge_sorted:
  "merge cmp a b = Inr l \<Longrightarrow> cmp_orders cmp le \<Longrightarrow> sorted_wrt le a \<Longrightarrow> sorted_wrt le b \<Longrightarrow>
   sorted_wrt le l"
proof (induction cmp a b arbitrary: l rule: merge.induct)
  case (1 cmp b)
  then show ?case by simp
next
  case (2 cmp x a)
  then show ?case by simp
next
  case (3 cmp x a y b)
  have cmp_le: "\<And>x y c. cmp x y = Inr c \<Longrightarrow> (c < 0 \<longrightarrow> le x y) \<and> (0 \<le> c \<longrightarrow> le y x)"
    and trans: "\<And>x y z. le x y \<Longrightarrow> le y z \<Longrightarrow> le x z"
    using "3.prems"(2) unfolding cmp_orders_def by blast+
  from "3.prems"(1) obtain c where c: "cmp x y = Inr c"
    by (auto split: sum.splits)
  show ?case
  proof (cases "c < 0")
    case True
    with "3.prems"(1) c obtain l' where m: "merge cmp a (y # b) = Inr l'" and l: "l = x # l'"
      by (auto split: sum.splits)
    have s: "sorted_wrt le l'"
      using "3.IH"(1) [OF c True m "3.prems"(2)] "3.prems"(3,4) by simp
    have xy: "le x y" using cmp_le [OF c] True by simp
    have "set l' = set a \<union> set (y # b)"
      using mset_merge [OF m] by (metis set_mset_mset set_mset_union)
    moreover have "\<forall>z \<in> set a. le x z" using "3.prems"(3) by simp
    moreover have "\<forall>z \<in> set b. le x z" using "3.prems"(4) xy trans by auto
    ultimately have "\<forall>z \<in> set l'. le x z" using xy by auto
    then show ?thesis using s l by simp
  next
    case False
    with "3.prems"(1) c obtain l' where m: "merge cmp (x # a) b = Inr l'" and l: "l = y # l'"
      by (auto split: sum.splits)
    have s: "sorted_wrt le l'"
      using "3.IH"(2) [OF c False m "3.prems"(2)] "3.prems"(3,4) by simp
    have yx: "le y x" using cmp_le [OF c] False by simp
    have "set l' = set (x # a) \<union> set b"
      using mset_merge [OF m] by (metis set_mset_mset set_mset_union)
    moreover have "\<forall>z \<in> set b. le y z" using "3.prems"(4) by simp
    moreover have "\<forall>z \<in> set a. le y z" using "3.prems"(3) yx trans by auto
    ultimately have "\<forall>z \<in> set l'. le y z" using yx by auto
    then show ?thesis using s l by simp
  qed
qed

lemma msort_carry_sorted:
  "msort_carry cmp ep bins i = Inr bins' \<Longrightarrow> cmp_orders cmp le \<Longrightarrow> length bins = LISTSIZE \<Longrightarrow>
   i < LISTSIZE \<Longrightarrow> sorted_wrt le ep \<Longrightarrow> \<forall>b \<in> set bins. sorted_wrt le b \<Longrightarrow>
   length bins' = LISTSIZE \<and> (\<forall>b \<in> set bins'. sorted_wrt le b)"
proof (induction cmp ep bins i arbitrary: bins' rule: msort_carry.induct)
  case (1 cmp ep bins i)
  have i: "i < length bins" using "1.prems"(3,4) by simp
  show ?case
  proof (cases "i < LISTSIZE - 1 \<and> bins ! i \<noteq> []")
    case True
    with "1.prems"(1) obtain ep' where m: "merge cmp ep (bins ! i) = Inr ep'"
      and r: "msort_carry cmp ep' (bins[i := []]) (i + 1) = Inr bins'"
      by (subst (asm) msort_carry.simps) (auto split: sum.splits)
    have "sorted_wrt le (bins ! i)" using "1.prems"(6) i by simp
    then have s: "sorted_wrt le ep'"
      using merge_sorted [OF m "1.prems"(2) "1.prems"(5)] by blast
    have all: "\<forall>b \<in> set (bins[i := []]). sorted_wrt le b"
      using "1.prems"(6) set_update_subset_insert [of bins i "[]"] by auto
    show ?thesis
      using True "1.prems"(3)
      by (intro "1.IH" [OF True m r "1.prems"(2) _ _ s all]) auto
  next
    case False
    with "1.prems"(1) have b: "bins' = bins[i := ep]"
      by (subst (asm) msort_carry.simps) auto
    show ?thesis
      using "1.prems"(3,5,6) set_update_subset_insert [of bins i ep] by (auto simp add: b)
  qed
qed

lemma msort_fill_sorted:
  "msort_fill cmp list bins = Inr bins' \<Longrightarrow> cmp_orders cmp le \<Longrightarrow> length bins = LISTSIZE \<Longrightarrow>
   \<forall>b \<in> set bins. sorted_wrt le b \<Longrightarrow> \<forall>b \<in> set bins'. sorted_wrt le b"
proof (induction list arbitrary: bins)
  case Nil
  then show ?case by simp
next
  case (Cons x list)
  from Cons.prems(1) obtain b where c: "msort_carry cmp [x] bins 0 = Inr b"
    and f: "msort_fill cmp list b = Inr bins'"
    by (auto split: sum.splits)
  have "length b = LISTSIZE \<and> (\<forall>s \<in> set b. sorted_wrt le s)"
    using Cons.prems(3,4)
    by (intro msort_carry_sorted [OF c Cons.prems(2)]) (simp_all add: LISTSIZE_def)
  then show ?case using Cons.IH [OF f Cons.prems(2)] by simp
qed

lemma msort_collect_sorted:
  "msort_collect cmp ep bins = Inr l \<Longrightarrow> cmp_orders cmp le \<Longrightarrow> sorted_wrt le ep \<Longrightarrow>
   \<forall>b \<in> set bins. sorted_wrt le b \<Longrightarrow> sorted_wrt le l"
proof (induction bins arbitrary: ep)
  case Nil
  then show ?case by simp
next
  case (Cons b bins)
  show ?case
  proof (cases "b = []")
    case True
    with Cons show ?thesis by simp
  next
    case False
    with Cons.prems(1) obtain ep' where m: "merge cmp ep b = Inr ep'"
      and c: "msort_collect cmp ep' bins = Inr l"
      by (auto split: sum.splits)
    have "sorted_wrt le ep'"
      using merge_sorted [OF m Cons.prems(2,3)] Cons.prems(4) by simp
    then show ?thesis using Cons.IH [OF c Cons.prems(2)] Cons.prems(4) by simp
  qed
qed

lemma msort_sorted:
  assumes "msort cmp list = Inr l" and "cmp_orders cmp le"
  shows "sorted_wrt le l"
proof -
  from assms(1) obtain bins where f: "msort_fill cmp list (replicate LISTSIZE []) = Inr bins"
    and c: "msort_collect cmp [] bins = Inr l"
    by (auto simp add: msort_def split: sum.splits)
  have "\<forall>b \<in> set bins. sorted_wrt le b"
    by (rule msort_fill_sorted [OF f assms(2)]) simp_all
  then show ?thesis
    using msort_collect_sorted [OF c assms(2)] by simp
qed


subsection \<open>The sort returns when no comparison exits\<close>

lemma sorted_wrt_sym_perm:
  assumes sym: "\<And>x y. P x y \<Longrightarrow> P y x"
  shows "mset xs = mset ys \<Longrightarrow> sorted_wrt P xs \<Longrightarrow> sorted_wrt P ys"
proof (induction xs arbitrary: ys)
  case Nil
  then show ?case by simp
next
  case (Cons x xs)
  have "x \<in> set ys" using Cons.prems(1) by (metis list.set_intros(1) mset_eq_setD)
  then obtain ys1 ys2 where ys: "ys = ys1 @ x # ys2" by (auto simp add: in_set_conv_decomp)
  have m: "mset xs = mset (ys1 @ ys2)" using Cons.prems(1) ys by simp
  have s: "sorted_wrt P (ys1 @ ys2)" using Cons.IH [OF m] Cons.prems(2) by simp
  have "set xs = set (ys1 @ ys2)" using m by (rule mset_eq_setD)
  then have all: "\<forall>y \<in> set ys1 \<union> set ys2. P x y \<and> P y x"
    using Cons.prems(2) sym by auto
  show ?case
    using s all unfolding ys by (auto simp add: sorted_wrt_append)
qed

definition cmp_total :: "('a \<Rightarrow> 'a \<Rightarrow> int + int) \<Rightarrow> ('a \<Rightarrow> 'a \<Rightarrow> bool) \<Rightarrow> bool" where
  "cmp_total cmp P = ((\<forall>x y. P x y \<longrightarrow> P y x) \<and> (\<forall>x y. P x y \<longrightarrow> (\<exists>c. cmp x y = Inr c)))"

lemma merge_total:
  "\<forall>x \<in> set a. \<forall>y \<in> set b. \<exists>c. cmp x y = Inr c \<Longrightarrow> \<exists>l. merge cmp a b = Inr l"
proof (induction cmp a b rule: merge.induct)
  case (3 cmp x a y b)
  then obtain c where c: "cmp x y = Inr c" by auto
  show ?case
  proof (cases "c < 0")
    case True
    have "\<exists>l. merge cmp a (y # b) = Inr l"
      using "3.IH"(1) [OF c True] "3.prems" by simp
    then show ?thesis using c True by auto
  next
    case False
    have "\<exists>l. merge cmp (x # a) b = Inr l"
      using "3.IH"(2) [OF c False] "3.prems" by simp
    then show ?thesis using c False by auto
  qed
qed simp_all

lemma msort_carry_total:
  "cmp_total cmp P \<Longrightarrow> sorted_wrt P (ep @ concat bins) \<Longrightarrow> bins_inv bins \<Longrightarrow> i < LISTSIZE \<Longrightarrow>
   2 ^ i \<le> length ep \<Longrightarrow> length ep + length (concat bins) < 2 ^ (LISTSIZE - 1) \<Longrightarrow>
   \<exists>bins'. msort_carry cmp ep bins i = Inr bins'"
proof (induction cmp ep bins i rule: msort_carry.induct)
  case (1 cmp ep bins i)
  have sym: "\<And>x y. P x y \<Longrightarrow> P y x" and ok: "\<And>x y. P x y \<Longrightarrow> \<exists>c. cmp x y = Inr c"
    using "1.prems"(1) unfolding cmp_total_def by blast+
  have len: "length bins = LISTSIZE" and i: "i < length bins"
    using "1.prems"(3,4) by (simp_all add: bins_inv_def)
  show ?case
  proof (cases "i < LISTSIZE - 1 \<and> bins ! i \<noteq> []")
    case True
    have "set (bins ! i) \<subseteq> set (concat bins)"
      using nth_mem [OF i] unfolding set_concat by blast
    then have "\<forall>x \<in> set ep. \<forall>y \<in> set (bins ! i). P x y"
      using "1.prems"(2) by (auto simp add: sorted_wrt_append)
    then have "\<forall>x \<in> set ep. \<forall>y \<in> set (bins ! i). \<exists>c. cmp x y = Inr c" using ok by blast
    then obtain ep' where m: "merge cmp ep (bins ! i) = Inr ep'"
      using merge_total by blast
    have ep': "mset ep' = mset ep + mset (bins ! i)"
      using m by (rule mset_merge)
    then have lep': "length ep' = length ep + length (bins ! i)"
      by (metis size_mset size_union)
    have upd: "mset (concat (bins[i := []])) + mset (bins ! i) = mset (concat bins)"
      using mset_concat_update [OF i, of "[]"] by simp
    then have lupd: "length (concat (bins[i := []])) + length (bins ! i) = length (concat bins)"
      by (metis size_mset size_union)
    have "2 ^ i \<le> length (bins ! i)"
      using True "1.prems"(3,4) by (auto simp add: bins_inv_def)
    then have big: "2 ^ (i + 1) \<le> length ep'"
      using "1.prems"(5) lep' by simp
    have inv: "bins_inv (bins[i := []])"
      using "1.prems"(3) i by (auto simp add: bins_inv_def nth_list_update)
    have tot: "length ep' + length (concat (bins[i := []])) < 2 ^ (LISTSIZE - 1)"
      using "1.prems"(6) lep' lupd by simp
    have "mset (ep @ concat bins) = mset (ep' @ concat (bins[i := []]))"
      using ep' upd by (simp add: add.assoc) (metis add.commute)
    then have s: "sorted_wrt P (ep' @ concat (bins[i := []]))"
      using sorted_wrt_sym_perm [of P, OF sym _ "1.prems"(2)] by blast
    have "\<exists>bins'. msort_carry cmp ep' (bins[i := []]) (i + 1) = Inr bins'"
      using True by (intro "1.IH" [OF True m "1.prems"(1) s inv _ big tot]) auto
    then show ?thesis using True m by (subst msort_carry.simps) simp
  next
    case False
    then show ?thesis by (subst msort_carry.simps) auto
  qed
qed

lemma msort_fill_total:
  "cmp_total cmp P \<Longrightarrow> sorted_wrt P (list @ concat bins) \<Longrightarrow> bins_inv bins \<Longrightarrow>
   length list + length (concat bins) < 2 ^ (LISTSIZE - 1) \<Longrightarrow>
   \<exists>bins'. msort_fill cmp list bins = Inr bins' \<and> sorted_wrt P (concat bins')"
proof (induction list arbitrary: bins)
  case Nil
  then show ?case by simp
next
  case (Cons x list)
  have sym: "\<And>x y. P x y \<Longrightarrow> P y x"
    using Cons.prems(1) unfolding cmp_total_def by blast
  have "sorted_wrt P ([x] @ concat bins)"
    using Cons.prems(2) by (simp add: sorted_wrt_append)
  then obtain b where c: "msort_carry cmp [x] bins 0 = Inr b"
    using msort_carry_total [OF Cons.prems(1) _ Cons.prems(3), of "[x]" 0] Cons.prems(4)
    by (auto simp add: LISTSIZE_def)
  have cb: "mset (concat b) = mset [x] + mset (concat bins) \<and> bins_inv b"
    using Cons.prems(3,4) by (intro mset_msort_carry [OF c]) (simp_all add: LISTSIZE_def)
  then have "length (concat b) = 1 + length (concat bins)"
    by (metis length_Cons list.size(3) size_mset size_union One_nat_def)
  then have l: "length list + length (concat b) < 2 ^ (LISTSIZE - 1)"
    using Cons.prems(4) by simp
  have "mset ((x # list) @ concat bins) = mset (list @ concat b)" using cb by simp
  then have s: "sorted_wrt P (list @ concat b)"
    using sorted_wrt_sym_perm [of P, OF sym _ Cons.prems(2)] by blast
  show ?case using Cons.IH [OF Cons.prems(1) s _ l] cb c by simp
qed

lemma msort_collect_total:
  "cmp_total cmp P \<Longrightarrow> sorted_wrt P (ep @ concat bins) \<Longrightarrow> \<exists>l. msort_collect cmp ep bins = Inr l"
proof (induction bins arbitrary: ep)
  case Nil
  then show ?case by simp
next
  case (Cons b bins)
  have sym: "\<And>x y. P x y \<Longrightarrow> P y x" and ok: "\<And>x y. P x y \<Longrightarrow> \<exists>c. cmp x y = Inr c"
    using Cons.prems(1) unfolding cmp_total_def by blast+
  show ?case
  proof (cases "b = []")
    case True
    then show ?thesis using Cons by simp
  next
    case False
    have "\<forall>x \<in> set ep. \<forall>y \<in> set b. P x y"
      using Cons.prems(2) by (auto simp add: sorted_wrt_append)
    then have "\<forall>x \<in> set ep. \<forall>y \<in> set b. \<exists>c. cmp x y = Inr c" using ok by blast
    then obtain ep' where m: "merge cmp ep b = Inr ep'" using merge_total by blast
    have "mset (ep @ concat (b # bins)) = mset (ep' @ concat bins)"
      using mset_merge [OF m] by simp
    then have "sorted_wrt P (ep' @ concat bins)"
      using sorted_wrt_sym_perm [of P, OF sym _ Cons.prems(2)] by blast
    then show ?thesis using Cons.IH [OF Cons.prems(1)] m False by simp
  qed
qed

lemma msort_total:
  assumes "cmp_total cmp P" and "sorted_wrt P list" and "length list < 2 ^ (LISTSIZE - 1)"
  shows "\<exists>l. msort cmp list = Inr l"
proof -
  have e: "concat (replicate LISTSIZE ([]::'a list)) = []"
    by (simp add: LISTSIZE_def)
  have inv: "bins_inv (replicate LISTSIZE ([]::'a list))"
    by (simp add: bins_inv_def)
  obtain bins where f: "msort_fill cmp list (replicate LISTSIZE []) = Inr bins"
    and s: "sorted_wrt P (concat bins)"
    using msort_fill_total [OF assms(1) _ inv, of list] assms(2,3) e by auto
  obtain l where "msort_collect cmp [] bins = Inr l"
    using msort_collect_total [OF assms(1), of "[]" bins] s by auto
  then show ?thesis using f by (simp add: msort_def)
qed

subsection \<open>The status of a sort that exits\<close>

lemma merge_Inl:
  "merge cmp a b = Inl n \<Longrightarrow> \<forall>x y m. cmp x y = Inl m \<longrightarrow> m = k \<Longrightarrow> n = k"
proof (induction cmp a b rule: merge.induct)
  case (3 cmp x a y b)
  show ?case
  proof (cases "cmp x y")
    case (Inl m)
    then show ?thesis using "3.prems" by auto
  next
    case (Inr c)
    then show ?thesis using 3 by (cases "c < 0") (auto split: sum.splits)
  qed
qed simp_all

lemma msort_carry_Inl:
  "msort_carry cmp ep bins i = Inl n \<Longrightarrow> \<forall>x y m. cmp x y = Inl m \<longrightarrow> m = k \<Longrightarrow> n = k"
proof (induction cmp ep bins i rule: msort_carry.induct)
  case (1 cmp ep bins i)
  show ?case
  proof (cases "i < LISTSIZE - 1 \<and> bins ! i \<noteq> []")
    case True
    show ?thesis
    proof (cases "merge cmp ep (bins ! i)")
      case (Inl m)
      then have "n = m" using "1.prems"(1) True by (subst (asm) msort_carry.simps) simp
      then show ?thesis using merge_Inl [OF Inl "1.prems"(2)] by simp
    next
      case (Inr ep')
      then have "msort_carry cmp ep' (bins[i := []]) (i + 1) = Inl n"
        using "1.prems"(1) True by (subst (asm) msort_carry.simps) simp
      then show ?thesis using "1.IH" [OF True Inr _ "1.prems"(2)] by simp
    qed
  next
    case False
    then show ?thesis using "1.prems"(1) by (subst (asm) msort_carry.simps) auto
  qed
qed

lemma msort_fill_Inl:
  "msort_fill cmp list bins = Inl n \<Longrightarrow> \<forall>x y m. cmp x y = Inl m \<longrightarrow> m = k \<Longrightarrow> n = k"
proof (induction list arbitrary: bins)
  case Nil
  then show ?case by simp
next
  case (Cons x list)
  show ?case
  proof (cases "msort_carry cmp [x] bins 0")
    case (Inl m)
    then show ?thesis using Cons.prems msort_carry_Inl [OF Inl Cons.prems(2)] by simp
  next
    case (Inr b)
    then show ?thesis using Cons by simp
  qed
qed

lemma msort_collect_Inl:
  "msort_collect cmp ep bins = Inl n \<Longrightarrow> \<forall>x y m. cmp x y = Inl m \<longrightarrow> m = k \<Longrightarrow> n = k"
proof (induction bins arbitrary: ep)
  case Nil
  then show ?case by simp
next
  case (Cons b bins)
  show ?case
  proof (cases "b = []")
    case True
    then show ?thesis using Cons by simp
  next
    case False
    show ?thesis
    proof (cases "merge cmp ep b")
      case (Inl m)
      then show ?thesis using Cons.prems False merge_Inl [OF Inl Cons.prems(2)] by simp
    next
      case (Inr ep')
      then show ?thesis using Cons False by simp
    qed
  qed
qed

lemma msort_Inl:
  assumes "msort cmp list = Inl n" and "\<forall>x y m. cmp x y = Inl m \<longrightarrow> m = k"
  shows "n = k"
proof (cases "msort_fill cmp list (replicate LISTSIZE [])")
  case (Inl m)
  then show ?thesis using assms msort_fill_Inl [OF Inl assms(2)] by (simp add: msort_def)
next
  case (Inr bins)
  then have "msort_collect cmp [] bins = Inl n" using assms(1) by (simp add: msort_def)
  then show ?thesis using msort_collect_Inl assms(2) by blast
qed


subsection \<open>What \<^verbatim>\<open>CompressTables\<close> does to a state\<close>

lemma length_collapse: "length (collapse dflt ap) = length ap"
  by (induction ap) simp_all

lemma actioncmp_orders: "cmp_orders (actioncmp lemp) (action_ord lemp)"
  unfolding cmp_orders_def using actioncmp_Inr action_ord_trans by blast

lemma actioncmp_total: "cmp_total (actioncmp lemp) (\<lambda>a b. \<not> clash lemp a b)"
  unfolding cmp_total_def using actioncmp_clash clash_sym by blast

lemma Action_sort_cases:
  assumes "length ap < 2 ^ (LISTSIZE - 1)"
  shows "if assert_free lemp ap
         then \<exists>sorted_ap. Action_sort lemp ap = Inr sorted_ap \<and> mset sorted_ap = mset ap
                \<and> sorted_wrt (action_ord lemp) sorted_ap
         else Action_sort lemp ap = Inl 1"
proof (cases "Action_sort lemp ap")
  case (Inl n)
  have "n = 1"
    using msort_Inl [of "actioncmp lemp" ap n 1] Inl actioncmp_Inl
    by (auto simp add: Action_sort_def)
  moreover have "\<not> assert_free lemp ap"
  proof
    assume "assert_free lemp ap"
    then have "\<exists>l. msort (actioncmp lemp) ap = Inr l"
      using msort_total [OF actioncmp_total _ assms, of lemp] by (simp add: assert_free_def)
    then show False using Inl by (simp add: Action_sort_def)
  qed
  ultimately show ?thesis using Inl by simp
next
  case (Inr sorted_ap)
  have m: "mset sorted_ap = mset ap"
    using mset_msort [of "actioncmp lemp" ap sorted_ap] Inr assms by (simp add: Action_sort_def)
  have s: "sorted_wrt (action_ord lemp) sorted_ap"
    using msort_sorted [of "actioncmp lemp" ap sorted_ap, OF _ actioncmp_orders] Inr
    by (simp add: Action_sort_def)
  have "sorted_wrt (\<lambda>a b. \<not> clash lemp a b) sorted_ap"
    using sorted_wrt_mono_rel [of sorted_ap "action_ord lemp" "\<lambda>a b. \<not> clash lemp a b"]
      action_ord_clash s by blast
  then have "assert_free lemp ap"
    unfolding assert_free_def
    using sorted_wrt_sym_perm [of "\<lambda>a b. \<not> clash lemp a b" sorted_ap ap] m clash_sym by blast
  then show ?thesis using Inr m s by simp
qed

text \<open>
  Claim C6, as amended.  A state that does not have two or more \<^verbatim>\<open>REDUCE\<close> actions
  all using one rule is left unchanged.  In a state that has, with fewer than \<open>2 ^ 29\<close>
  actions, the first \<^verbatim>\<open>REDUCE\<close> action gets the lookahead \<^verbatim>\<open>{default}\<close>, every other
  \<^verbatim>\<open>REDUCE\<close> action becomes \<^verbatim>\<open>NOT_USED\<close>, and the list is handed to \<^verbatim>\<open>Action_sort\<close>.
  If two of these actions have lookaheads of one index and one type that is not
  \<^verbatim>\<open>REDUCE\<close>, the assertion of \<^verbatim>\<open>actioncmp\<close> fails and the run ends with status 1.
  Otherwise the new action list of the state holds the same actions, ordered by the
  index of the lookahead, then by the type, then by the index of the rule.
\<close>

theorem CompressTables_state_default:
  "(\<not> compressible (st_ap stp) \<longrightarrow> CompressTables_state lemp stp = Inr (lemp, stp))
   \<and> (compressible (st_ap stp) \<and> length (st_ap stp) < 2 ^ (LISTSIZE - 1) \<longrightarrow>
        (case Symbol_new ''{default}'' (lem_symbols lemp) of
           (dflt, syms) \<Rightarrow>
             if assert_free (lemp\<lparr>lem_symbols := syms\<rparr>) (collapse dflt (st_ap stp))
             then \<exists>sorted_ap.
                    CompressTables_state lemp stp
                      = Inr (lemp\<lparr>lem_symbols := syms\<rparr>, stp\<lparr>st_ap := sorted_ap\<rparr>)
                    \<and> mset sorted_ap = mset (collapse dflt (st_ap stp))
                    \<and> sorted_wrt (action_ord (lemp\<lparr>lem_symbols := syms\<rparr>)) sorted_ap
             else CompressTables_state lemp stp = Inl 1))"
proof (intro conjI impI)
  assume "\<not> compressible (st_ap stp)"
  then show "CompressTables_state lemp stp = Inr (lemp, stp)"
    by (subst CompressTables_state_unfold) simp
next
  assume a: "compressible (st_ap stp) \<and> length (st_ap stp) < 2 ^ (LISTSIZE - 1)"
  obtain dflt syms where sn: "Symbol_new ''{default}'' (lem_symbols lemp) = (dflt, syms)"
    by (cases "Symbol_new ''{default}'' (lem_symbols lemp)") blast
  let ?lemp = "lemp\<lparr>lem_symbols := syms\<rparr>"
  let ?ap = "collapse dflt (st_ap stp)"
  have u: "CompressTables_state lemp stp =
      (case Action_sort ?lemp ?ap of
         Inl status \<Rightarrow> Inl status
       | Inr sorted_ap \<Rightarrow> Inr (?lemp, stp\<lparr>st_ap := sorted_ap\<rparr>))"
    using a sn by (subst CompressTables_state_unfold) simp
  have "length ?ap < 2 ^ (LISTSIZE - 1)" using a by (simp add: length_collapse)
  from Action_sort_cases [OF this, of ?lemp]
  have "if assert_free ?lemp ?ap
        then \<exists>sorted_ap. CompressTables_state lemp stp = Inr (?lemp, stp\<lparr>st_ap := sorted_ap\<rparr>)
                \<and> mset sorted_ap = mset ?ap \<and> sorted_wrt (action_ord ?lemp) sorted_ap
        else CompressTables_state lemp stp = Inl 1"
    unfolding u by (auto split: if_splits)
  then show "case Symbol_new ''{default}'' (lem_symbols lemp) of
           (dflt, syms) \<Rightarrow>
             if assert_free (lemp\<lparr>lem_symbols := syms\<rparr>) (collapse dflt (st_ap stp))
             then \<exists>sorted_ap.
                    CompressTables_state lemp stp
                      = Inr (lemp\<lparr>lem_symbols := syms\<rparr>, stp\<lparr>st_ap := sorted_ap\<rparr>)
                    \<and> mset sorted_ap = mset (collapse dflt (st_ap stp))
                    \<and> sorted_wrt (action_ord (lemp\<lparr>lem_symbols := syms\<rparr>)) sorted_ap
             else CompressTables_state lemp stp = Inl 1"
    by (simp add: sn)
qed

text \<open>
  The grammar \<^verbatim>\<open>%left LOW.  %left HIGH.  s ::= a X.  s ::= a.  s ::= b.  s ::= c.
  a ::= A. [HIGH]  b ::= A. [LOW]  c ::= A. [LOW]\<close>.  Its state reached on \<^verbatim>\<open>A\<close> holds
  \<^verbatim>\<open>a ::= A .\<close> with the follow set \<^verbatim>\<open>$\<close>, \<^verbatim>\<open>X\<close>, and \<^verbatim>\<open>b ::= A .\<close> and \<^verbatim>\<open>c ::= A .\<close>
  with the follow set \<^verbatim>\<open>$\<close>: the reduce by rule 4 on \<^verbatim>\<open>X\<close> and the reduces by the rules
  4, 5 and 6 on \<^verbatim>\<open>$\<close>.  The conflict loop compares the reduce by rule 4 on \<^verbatim>\<open>$\<close> with
  the other two and makes both \<^verbatim>\<open>RD_RESOLVED\<close>; the two \<^verbatim>\<open>REDUCE\<close> actions left use
  one rule.
\<close>

definition marks_lemon :: lemon where
  "marks_lemon =
    \<lparr>lem_symbols =
       [mk_symbol ''$'' 0 NONTERMINAL (- 1) UNK,
        mk_symbol ''A'' 1 TERMINAL (- 1) UNK,
        mk_symbol ''HIGH'' 2 TERMINAL 2 LEFT,
        mk_symbol ''LOW'' 3 TERMINAL 1 LEFT,
        mk_symbol ''X'' 4 TERMINAL (- 1) UNK,
        mk_symbol ''a'' 5 NONTERMINAL (- 1) UNK,
        mk_symbol ''b'' 6 NONTERMINAL (- 1) UNK,
        mk_symbol ''c'' 7 NONTERMINAL (- 1) UNK,
        mk_symbol ''error'' 8 NONTERMINAL (- 1) UNK,
        mk_symbol ''s'' 9 NONTERMINAL (- 1) UNK,
        mk_symbol ''{default}'' 10 NONTERMINAL (- 1) UNK],
     lem_rule =
       [mk_rule 9 [5, 4] None 0,
        mk_rule 9 [5] None 1,
        mk_rule 9 [6] None 2,
        mk_rule 9 [7] None 3,
        mk_rule 5 [1] (Some 2) 4,
        mk_rule 6 [1] (Some 3) 5,
        mk_rule 7 [1] (Some 3) 6],
     lem_nsymbol = 10, lem_nterminal = 5, lem_errorcnt = 0, lem_nconflict = 0,
     lem_errsym = Some 8\<rparr>"

definition marks_state :: state where
  "marks_state =
    mk_state [mk_action 4 REDUCE 4, mk_action 0 REDUCE 6, mk_action 0 REDUCE 5,
              mk_action 0 REDUCE 4]"

definition resolved_state :: state where
  "resolved_state =
    mk_state [mk_action 0 REDUCE 4, mk_action 0 RD_RESOLVED 5, mk_action 0 RD_RESOLVED 6,
              mk_action 4 REDUCE 4]"

text \<open>
  The theorem at three states: the state of the grammar of expressions whose two
  \<^verbatim>\<open>REDUCE\<close> actions use rule 3 gets its default action and is sorted; the one whose
  \<^verbatim>\<open>REDUCE\<close> actions use the rules 3, 3 and 2 is left as it is; and on the state above,
  as the conflict loop leaves it, the sort meets the two \<^verbatim>\<open>RD_RESOLVED\<close> actions on
  \<^verbatim>\<open>$\<close> and the run ends with status 1.
\<close>

lemma compress_eval:
  "compressible (st_ap single_state)"
  "length (st_ap single_state) = 4"
  "\<not> compressible (st_ap mixed_state)"
  "Symbol_new ''{default}'' (lem_symbols expr_lemon) = (8, lem_symbols expr_lemon)"
  "assert_free expr_lemon (collapse 8 (st_ap single_state))"
  "CompressTables_state expr_lemon single_state
     = Inr (expr_lemon,
            mk_state [mk_action 2 SHIFT 4, mk_action 4 NOT_USED 3, mk_action 5 SHIFT 2,
                      mk_action 8 REDUCE 3])"
  "FindActions_state marks_lemon marks_state = Inr (marks_lemon, resolved_state)"
  "compressible (st_ap resolved_state)"
  "length (st_ap resolved_state) = 4"
  "Symbol_new ''{default}'' (lem_symbols marks_lemon) = (10, lem_symbols marks_lemon)"
  "\<not> assert_free marks_lemon (collapse 10 (st_ap resolved_state))"
  by code_simp+

theorem CompressTables_state_default_witness:
  "compressible (st_ap single_state)
   \<and> CompressTables_state expr_lemon single_state
     = Inr (expr_lemon,
            mk_state [mk_action 2 SHIFT 4, mk_action 4 NOT_USED 3, mk_action 5 SHIFT 2,
                      mk_action 8 REDUCE 3])
   \<and> sorted_wrt (action_ord expr_lemon)
        [mk_action 2 SHIFT 4, mk_action 4 NOT_USED 3, mk_action 5 SHIFT 2, mk_action 8 REDUCE 3]
   \<and> \<not> compressible (st_ap mixed_state)
   \<and> CompressTables_state expr_lemon mixed_state = Inr (expr_lemon, mixed_state)
   \<and> FindActions_state marks_lemon marks_state = Inr (marks_lemon, resolved_state)
   \<and> compressible (st_ap resolved_state)
   \<and> CompressTables_state marks_lemon resolved_state = Inl 1"
proof -
  note e = compress_eval
  have same: "expr_lemon\<lparr>lem_symbols := lem_symbols expr_lemon\<rparr> = expr_lemon"
    "marks_lemon\<lparr>lem_symbols := lem_symbols marks_lemon\<rparr> = marks_lemon"
    by simp_all
  have small: "length (st_ap single_state) < 2 ^ (LISTSIZE - 1)"
    "length (st_ap resolved_state) < 2 ^ (LISTSIZE - 1)"
    by (simp_all add: e(2,9) LISTSIZE_def)
  have "\<exists>sorted_ap. CompressTables_state expr_lemon single_state
            = Inr (expr_lemon, single_state\<lparr>st_ap := sorted_ap\<rparr>)
          \<and> mset sorted_ap = mset (collapse 8 (st_ap single_state))
          \<and> sorted_wrt (action_ord expr_lemon) sorted_ap"
    using CompressTables_state_default [where stp = single_state and lemp = expr_lemon] e(1,5)
      small(1)
    by (simp add: e(4) same)
  then obtain sorted_ap where
    r: "CompressTables_state expr_lemon single_state
          = Inr (expr_lemon, single_state\<lparr>st_ap := sorted_ap\<rparr>)"
    and s: "sorted_wrt (action_ord expr_lemon) sorted_ap"
    by blast
  have "single_state\<lparr>st_ap := sorted_ap\<rparr>
      = mk_state [mk_action 2 SHIFT 4, mk_action 4 NOT_USED 3, mk_action 5 SHIFT 2,
                  mk_action 8 REDUCE 3]"
    using r e(6) by simp
  then have "sorted_ap
      = [mk_action 2 SHIFT 4, mk_action 4 NOT_USED 3, mk_action 5 SHIFT 2, mk_action 8 REDUCE 3]"
    by (simp add: single_state_def mk_state_def)
  then have a1: "sorted_wrt (action_ord expr_lemon)
        [mk_action 2 SHIFT 4, mk_action 4 NOT_USED 3, mk_action 5 SHIFT 2, mk_action 8 REDUCE 3]"
    using s by (simp only:)
  have a2: "CompressTables_state expr_lemon mixed_state = Inr (expr_lemon, mixed_state)"
    using CompressTables_state_default [where stp = mixed_state and lemp = expr_lemon] e(3)
    by simp
  have a3: "CompressTables_state marks_lemon resolved_state = Inl 1"
    using CompressTables_state_default [where stp = resolved_state and lemp = marks_lemon]
      e(8,11) small(2)
    by (simp add: e(10) same)
  show ?thesis
    by (intro conjI) (rule e(1) e(6) a1 e(3) a2 e(7) e(8) a3)+
qed


text \<open>
  The claim as it was stated compresses a state as soon as two \<^verbatim>\<open>REDUCE\<close> actions
  share a rule.  In the first of the two states two actions use rule 3, and the state
  is left as it is.
\<close>

theorem CompressTables_state_counterexample:
  "length (filter (\<lambda>a. act_type a = REDUCE \<and> act_x a = 3) (st_ap mixed_state)) = 2
   \<and> CompressTables_state expr_lemon mixed_state = Inr (expr_lemon, mixed_state)"
  by code_simp

section \<open>The header file\<close>

text \<open>
  \<^verbatim>\<open>fgets(line,LINESIZE,in)\<close> reads up to \<^verbatim>\<open>LINESIZE-1\<close> characters and stops behind a
  newline; it returns a null pointer when nothing is left to read.  The file is the
  text that is left; the result is the line read and the rest of the file.
\<close>

definition LINESIZE :: nat where
  "LINESIZE = 1000"

fun fgets_chars :: "nat \<Rightarrow> string \<Rightarrow> string \<times> string" where
  "fgets_chars 0 content = ([], content)"
| "fgets_chars (Suc n) [] = ([], [])"
| "fgets_chars (Suc n) (c # content) =
    (if c = CHR 0x0A then ([c], content)
     else case fgets_chars n content of (line, rest) \<Rightarrow> (c # line, rest))"

definition fgets :: "nat \<Rightarrow> string \<Rightarrow> (string \<times> string) option" where
  "fgets n content = (if content = [] then None else Some (fgets_chars (n - 1) content))"

text \<open>\<^verbatim>\<open>"#define %s%-30s %2d\n"\<close> of a prefix, a name and a positive number.\<close>

definition header_line :: "string \<Rightarrow> string \<Rightarrow> nat \<Rightarrow> string" where
  "header_line prefix nm i =
    ''#define '' @ c_string prefix @ c_string nm @ replicate (30 - length (c_string nm)) (CHR '' '')
    @ '' '' @ replicate (2 - length (show_nat i)) (CHR '' '') @ show_nat i @ [CHR 0x0A]"

text \<open>
  The two loops of \<^verbatim>\<open>ReportHeader\<close>: the comparison of the existing file with the
  lines to write, which returns the \<^verbatim>\<open>i\<close> at which it stops, and the printing.
\<close>

function ReportHeader_compare :: "lemon \<Rightarrow> string \<Rightarrow> nat \<Rightarrow> string \<Rightarrow> nat" where
  "ReportHeader_compare lemp prefix i content =
    (if int i < lem_nterminal lemp then
       (case fgets LINESIZE content of
          None \<Rightarrow> i
        | Some (line, rest) \<Rightarrow>
            if strcmp (c_string line) (header_line prefix (sym_name (lem_symbols lemp ! i)) i) \<noteq> 0
            then i
            else ReportHeader_compare lemp prefix (i + 1) rest)
     else i)"
  by pat_completeness auto
termination
  by (relation "measure (\<lambda>(lemp, prefix, i, content). nat (lem_nterminal lemp) - i)") auto

declare ReportHeader_compare.simps [simp del]

function ReportHeader_print :: "lemon \<Rightarrow> string \<Rightarrow> nat \<Rightarrow> string" where
  "ReportHeader_print lemp prefix i =
    (if int i < lem_nterminal lemp then
       header_line prefix (sym_name (lem_symbols lemp ! i)) i @ ReportHeader_print lemp prefix (i + 1)
     else [])"
  by pat_completeness auto
termination
  by (relation "measure (\<lambda>(lemp, prefix, i). nat (lem_nterminal lemp) - i)") auto

declare ReportHeader_print.simps [simp del]

text \<open>
  \<^verbatim>\<open>ReportHeader\<close>, given \<^verbatim>\<open>lemp->tokenprefix\<close>, the contents of the \<^verbatim>\<open>.h\<close> file when
  it can be opened for reading, and whether it can be opened for writing.  The result
  is the state, the contents of the file after the call, and whether the file was
  written.
\<close>

definition ReportHeader ::
  "lemon \<Rightarrow> string option \<Rightarrow> string option \<Rightarrow> bool \<Rightarrow> lemon \<times> string option \<times> bool" where
  "ReportHeader lemp tokenprefix h_file can_write =
    (let prefix = (case tokenprefix of Some p \<Rightarrow> p | None \<Rightarrow> '''')
     in if h_file \<noteq> None
           \<and> int (ReportHeader_compare lemp prefix 1 (the h_file)) = lem_nterminal lemp
        then (lemp, h_file, False)
        else if can_write then (lemp, Some (ReportHeader_print lemp prefix 1), True)
        else (lemp\<lparr>lem_errorcnt := lem_errorcnt lemp + 1\<rparr>, h_file, False))"

text \<open>The text that \<^verbatim>\<open>ReportHeader\<close> writes when it writes.\<close>

definition header_text :: "lemon \<Rightarrow> string option \<Rightarrow> string" where
  "header_text lemp tokenprefix =
    ReportHeader_print lemp (case tokenprefix of Some p \<Rightarrow> p | None \<Rightarrow> '''') 1"

text \<open>
  The lines to write fit the line buffer, and neither the prefix nor a terminal name
  holds a newline.
\<close>

definition header_lines_ok :: "lemon \<Rightarrow> string \<Rightarrow> bool" where
  "header_lines_ok lemp prefix =
    (1 \<le> lem_nterminal lemp
     \<and> list_all (\<lambda>i. length (header_line prefix (sym_name (lem_symbols lemp ! i)) i) < LINESIZE
                  \<and> CHR 0x0A \<notin> set (c_string prefix)
                  \<and> CHR 0x0A \<notin> set (c_string (sym_name (lem_symbols lemp ! i))))
         [1 ..< nat (lem_nterminal lemp)])"

text \<open>
  A grammar \<^verbatim>\<open>%token_prefix T_  start ::= A.\<close> and the header of an earlier version of
  it that had a second terminal \<^verbatim>\<open>B\<close>.
\<close>

definition one_terminal_lemon :: lemon where
  "one_terminal_lemon =
    \<lparr>lem_symbols =
       [mk_symbol ''$'' 0 NONTERMINAL (- 1) UNK,
        mk_symbol ''A'' 1 TERMINAL (- 1) UNK,
        mk_symbol ''error'' 2 NONTERMINAL (- 1) UNK,
        mk_symbol ''start'' 3 NONTERMINAL (- 1) UNK,
        mk_symbol ''{default}'' 4 NONTERMINAL (- 1) UNK],
     lem_rule = [mk_rule 3 [1] None 0],
     lem_nsymbol = 4, lem_nterminal = 2, lem_errorcnt = 0, lem_nconflict = 0,
     lem_errsym = Some 2\<rparr>"

definition stale_header :: string where
  "stale_header = header_line ''T_'' ''A'' 1 @ header_line ''T_'' ''B'' 2"

subsection \<open>Reading lines\<close>

lemma c_string_no_NUL: "CHR 0x00 \<notin> set (c_string s)"
  unfolding c_string_def by (induction s) auto

lemma c_string_of_c_string: "CHR 0x00 \<notin> set s \<Longrightarrow> c_string s = s"
  unfolding c_string_def by (induction s) auto

lemma strcmp_eq_0:
  "CHR 0x00 \<notin> set a \<Longrightarrow> CHR 0x00 \<notin> set b \<Longrightarrow> strcmp a b = 0 \<longleftrightarrow> a = b"
proof (induction a b rule: strcmp.induct)
  case (2 b bs)
  then show ?case by (auto simp add: of_char_nat_0)
next
  case (3 a as)
  then show ?case by (auto simp add: of_char_nat_0)
next
  case (4 a as b bs)
  then show ?case by auto
qed simp

lemma show_nat_digits: "c \<in> set (show_nat n) \<Longrightarrow> c \<noteq> CHR 0x00 \<and> c \<noteq> CHR 0x0A"
proof (induction n rule: show_nat.induct)
  case (1 n)
  have d: "\<And>k::nat. k < 10 \<Longrightarrow> char_of (48 + k) \<noteq> CHR 0x00 \<and> char_of (48 + k) \<noteq> CHR 0x0A"
  proof -
    fix k :: nat assume "k < 10"
    then have "(of_char (char_of (48 + k)) :: nat) = 48 + k"
      by (simp add: of_char_of)
    moreover have "(of_char (CHR 0x00) :: nat) = 0" "(of_char (CHR 0x0A) :: nat) = 10"
      by simp_all
    ultimately have "(of_char (char_of (48 + k)) :: nat) \<noteq> of_char (CHR 0x00)"
      "(of_char (char_of (48 + k)) :: nat) \<noteq> of_char (CHR 0x0A)"
      by linarith+
    then show "char_of (48 + k) \<noteq> CHR 0x00 \<and> char_of (48 + k) \<noteq> CHR 0x0A"
      by metis
  qed
  show ?case
  proof (cases "n < 10")
    case True
    with "1.prems" d [of n] show ?thesis by (subst (asm) show_nat.simps) simp
  next
    case False
    with "1.prems" have "c \<in> set (show_nat (n div 10)) \<or> c = char_of (48 + n mod 10)"
      by (subst (asm) show_nat.simps) auto
    then show ?thesis using "1.IH" False d [of "n mod 10"] by auto
  qed
qed


lemma header_line_chars:
  assumes "CHR 0x0A \<notin> set (c_string prefix)" and "CHR 0x0A \<notin> set (c_string nm)"
  shows "\<exists>b. header_line prefix nm i = b @ [CHR 0x0A] \<and> CHR 0x0A \<notin> set b \<and> CHR 0x00 \<notin> set b"
proof -
  let ?b = "''#define '' @ c_string prefix @ c_string nm
    @ replicate (30 - length (c_string nm)) (CHR '' '')
    @ '' '' @ replicate (2 - length (show_nat i)) (CHR '' '') @ show_nat i"
  have "header_line prefix nm i = ?b @ [CHR 0x0A]"
    by (simp add: header_line_def)
  moreover have "CHR 0x0A \<notin> set ?b"
    using assms show_nat_digits [of "CHR 0x0A" i] by auto
  moreover have "CHR 0x00 \<notin> set ?b"
    using c_string_no_NUL [of prefix] c_string_no_NUL [of nm] show_nat_digits [of "CHR 0x00" i]
    by auto
  ultimately show ?thesis by blast
qed

lemma fgets_chars_append: "fgets_chars n content = (line, rest) \<Longrightarrow> content = line @ rest"
  by (induction n content arbitrary: line rest rule: fgets_chars.induct)
    (auto split: if_splits prod.splits)

lemma fgets_chars_newline:
  "fgets_chars n content = (line, rest) \<Longrightarrow> CHR 0x0A \<notin> set (butlast line)"
  by (induction n content arbitrary: line rest rule: fgets_chars.induct)
    (auto split: if_splits prod.splits)

lemma fgets_chars_line:
  "CHR 0x0A \<notin> set b \<Longrightarrow> length b < n \<Longrightarrow>
   fgets_chars n ((b @ [CHR 0x0A]) @ rest) = (b @ [CHR 0x0A], rest)"
proof (induction b arbitrary: n)
  case Nil
  then show ?case by (cases n) simp_all
next
  case (Cons c b)
  then show ?case by (cases n) auto
qed

subsection \<open>When the header is not rewritten\<close>

text \<open>
  For lines that fit, \<^verbatim>\<open>ReportHeader\<close> leaves the file alone exactly when the file
  can be read and begins with the text to write; what follows that text in the file
  is not read.  So a file that is the text to write is not rewritten.
\<close>

lemma ReportHeader_compare_iff:
  assumes "header_lines_ok lemp prefix" and "1 \<le> i" and "int i \<le> lem_nterminal lemp"
  shows "int (ReportHeader_compare lemp prefix i content) = lem_nterminal lemp
         \<longleftrightarrow> (\<exists>rest. content = ReportHeader_print lemp prefix i @ rest)"
  using assms
proof (induction lemp prefix i content rule: ReportHeader_compare.induct)
  case (1 lemp prefix i content)
  show ?case
  proof (cases "int i < lem_nterminal lemp")
    case False
    then have "int i = lem_nterminal lemp" using "1.prems" by simp
    then show ?thesis
      by (subst ReportHeader_compare.simps, subst ReportHeader_print.simps) simp
  next
    case True
    let ?pat = "header_line prefix (sym_name (lem_symbols lemp ! i)) i"
    let ?next = "ReportHeader_print lemp prefix (i + 1)"
    have "i \<in> set [1 ..< nat (lem_nterminal lemp)]" using True "1.prems" by auto
    with "1.prems"(1) have ok: "length ?pat < LINESIZE" "CHR 0x0A \<notin> set (c_string prefix)"
      "CHR 0x0A \<notin> set (c_string (sym_name (lem_symbols lemp ! i)))"
      unfolding header_lines_ok_def list_all_iff by blast+
    from header_line_chars [OF ok(2,3), of i]
    obtain b where b: "?pat = b @ [CHR 0x0A]" "CHR 0x0A \<notin> set b" "CHR 0x00 \<notin> set b"
      by blast
    have patz: "CHR 0x00 \<notin> set ?pat" using b by simp
    have print: "ReportHeader_print lemp prefix i = ?pat @ ?next"
      using True by (subst ReportHeader_print.simps) simp
    show ?thesis
    proof (cases "fgets LINESIZE content")
      case None
      then have e: "content = []" by (simp add: fgets_def split: if_splits)
      have "ReportHeader_compare lemp prefix i content = i"
        using True None by (subst ReportHeader_compare.simps) simp
      then show ?thesis using True e b print by simp
    next
      case (Some lr)
      then obtain line rest where lr: "fgets LINESIZE content = Some (line, rest)"
        by (cases lr) auto
      then have fc: "fgets_chars (LINESIZE - 1) content = (line, rest)" and ne: "content \<noteq> []"
        by (auto simp add: fgets_def split: if_splits)
      have app: "content = line @ rest" using fc by (rule fgets_chars_append)
      show ?thesis
      proof (cases "strcmp (c_string line) ?pat \<noteq> 0")
        case True
        then have neq: "c_string line \<noteq> ?pat"
          using strcmp_eq_0 [OF c_string_no_NUL patz, of line] by simp
        have stop: "ReportHeader_compare lemp prefix i content = i"
          using \<open>int i < lem_nterminal lemp\<close> lr True by (subst ReportHeader_compare.simps) simp
        have "\<not> (\<exists>r. content = (?pat @ ?next) @ r)"
        proof
          assume "\<exists>r. content = (?pat @ ?next) @ r"
          then obtain r where "content = (b @ [CHR 0x0A]) @ (?next @ r)" using b(1) by auto
          then have "fgets_chars (LINESIZE - 1) content = (b @ [CHR 0x0A], ?next @ r)"
            using fgets_chars_line [OF b(2), of "LINESIZE - 1" "?next @ r"] ok(1) b(1) by simp
          with fc have "line = ?pat" using b(1) by simp
          then have "c_string line = ?pat" using patz by (simp add: c_string_of_c_string)
          with neq show False by simp
        qed
        then show ?thesis using stop \<open>int i < lem_nterminal lemp\<close> print by simp
      next
        case False
        then have eq: "c_string line = ?pat"
          using strcmp_eq_0 [OF c_string_no_NUL patz, of line] by simp
        have line: "line = ?pat"
        proof -
          have "line = c_string line @ drop (length (c_string line)) line"
            unfolding c_string_def by (metis takeWhile_eq_take append_take_drop_id)
          then obtain z where z: "line = (b @ [CHR 0x0A]) @ z" using eq b(1) by metis
          have "z = []"
          proof (rule ccontr)
            assume "z \<noteq> []"
            then have "butlast line = (b @ [CHR 0x0A]) @ butlast z" using z
              by (simp add: butlast_append)
            then have "CHR 0x0A \<in> set (butlast line)" by simp
            with fgets_chars_newline [OF fc] show False by simp
          qed
          then show ?thesis using z b(1) by simp
        qed
        have step: "ReportHeader_compare lemp prefix i content
                    = ReportHeader_compare lemp prefix (i + 1) rest"
          using \<open>int i < lem_nterminal lemp\<close> lr False by (subst ReportHeader_compare.simps) simp
        have "int (ReportHeader_compare lemp prefix (i + 1) rest) = lem_nterminal lemp
              \<longleftrightarrow> (\<exists>r. rest = ?next @ r)"
          using \<open>int i < lem_nterminal lemp\<close> "1.prems"(1)
          by (intro "1.IH" [OF \<open>int i < lem_nterminal lemp\<close> lr refl False]) auto
        then show ?thesis using step print app line by auto
      qed
    qed
  qed
qed

lemma ReportHeader_suppressed_iff:
  assumes "header_lines_ok lemp (case tokenprefix of Some p \<Rightarrow> p | None \<Rightarrow> '''')"
  shows "ReportHeader lemp tokenprefix h_file True = (lemp, h_file, False)
         \<longleftrightarrow> (\<exists>content rest. h_file = Some content
                \<and> content = header_text lemp tokenprefix @ rest)"
proof -
  let ?p = "case tokenprefix of Some p \<Rightarrow> p | None \<Rightarrow> ''''"
  have n: "1 \<le> lem_nterminal lemp" using assms by (simp add: header_lines_ok_def)
  show ?thesis
  proof (cases h_file)
    case None
    then show ?thesis by (simp add: ReportHeader_def)
  next
    case (Some content)
    have "int (ReportHeader_compare lemp ?p 1 content) = lem_nterminal lemp
          \<longleftrightarrow> (\<exists>rest. content = ReportHeader_print lemp ?p 1 @ rest)"
      using assms n by (intro ReportHeader_compare_iff) simp_all
    then show ?thesis
      using Some by (auto simp add: ReportHeader_def header_text_def Let_def)
  qed
qed

lemma ReportHeader_unchanged:
  assumes "header_lines_ok lemp (case tokenprefix of Some p \<Rightarrow> p | None \<Rightarrow> '''')"
  shows "ReportHeader lemp tokenprefix (Some (header_text lemp tokenprefix)) True
         = (lemp, Some (header_text lemp tokenprefix), False)"
  using ReportHeader_suppressed_iff [OF assms, of "Some (header_text lemp tokenprefix)"]
  by simp

lemma header_eval:
  "header_lines_ok one_terminal_lemon ''T_''"
  "header_text one_terminal_lemon (Some ''T_'') = ''#define T_A                               1'' @ [CHR 0x0A]"
  "ReportHeader one_terminal_lemon (Some ''T_'') None True
   = (one_terminal_lemon, Some (header_text one_terminal_lemon (Some ''T_'')), True)"
  by code_simp+

text \<open>
  Claim C8 at a header left by an earlier grammar with the terminals \<^verbatim>\<open>A\<close> and \<^verbatim>\<open>B\<close>,
  when the grammar has only \<^verbatim>\<open>A\<close> now: the file is not the text that would be
  written, and it is not rewritten.
\<close>

theorem ReportHeader_stale_header:
  "ReportHeader one_terminal_lemon (Some ''T_'') (Some stale_header) True
     = (one_terminal_lemon, Some stale_header, False)
   \<and> stale_header \<noteq> header_text one_terminal_lemon (Some ''T_'')"
  by code_simp

section \<open>Nullable symbols and first sets\<close>

text \<open>
  \<^verbatim>\<open>FindFirstSets\<close> works on the \<^verbatim>\<open>lambda\<close> flag and the \<^verbatim>\<open>firstset\<close> of every symbol.  A
  set of \<^verbatim>\<open>set.c\<close> is an array of \<^verbatim>\<open>size\<close> characters, one per element, \<^verbatim>\<open>size\<close> being
  what \<^verbatim>\<open>SetSize\<close> made of the number of terminals in \<^verbatim>\<open>main\<close>; it is modelled by the set
  of the indices that hold a one.  \<^verbatim>\<open>SetAdd\<close> returns whether the element is new, and
  \<^verbatim>\<open>SetUnion\<close> looks at the first \<^verbatim>\<open>size\<close> elements only.  The flags and the sets are
  functions of the symbol, a symbol being its position in \<^verbatim>\<open>symbols\<close>.
\<close>

definition SetAdd :: "int set \<Rightarrow> int \<Rightarrow> int set \<times> bool" where
  "SetAdd s e = (insert e s, e \<notin> s)"

definition SetUnion :: "int \<Rightarrow> int set \<Rightarrow> int set \<Rightarrow> int set \<times> bool" where
  "SetUnion sz s1 s2 =
    (s1 \<union> Set.filter (\<lambda>i. 0 \<le> i \<and> i < sz) s2, \<exists>i \<in> s2. 0 \<le> i \<and> i < sz \<and> i \<notin> s1)"

definition SetSize :: "int \<Rightarrow> int" where
  "SetSize n = n + 1"

text \<open>
  The first loop: a rule whose left-hand side is not yet \<^verbatim>\<open>lambda\<close> and whose right-hand
  side is all \<^verbatim>\<open>lambda\<close> sets the flag of its left-hand side; the passes over the rules
  go on as long as one of them has set a flag.  Each \<^verbatim>\<open>do\<close> loop runs on fuel.
\<close>

fun lambda_scan :: "(nat \<Rightarrow> bool) \<Rightarrow> nat list \<Rightarrow> bool" where
  "lambda_scan lam [] = True"
| "lambda_scan lam (s # rhs) = (if \<not> lam s then False else lambda_scan lam rhs)"

fun lambda_pass :: "rule list \<Rightarrow> (nat \<Rightarrow> bool) \<times> bool \<Rightarrow> (nat \<Rightarrow> bool) \<times> bool" where
  "lambda_pass [] (lam, progress) = (lam, progress)"
| "lambda_pass (rp # next) (lam, progress) =
    (if lam (rule_lhs rp) then lambda_pass next (lam, progress)
     else if lambda_scan lam (rule_rhs rp) then lambda_pass next (lam(rule_lhs rp := True), True)
     else lambda_pass next (lam, progress))"

fun lambda_loop :: "nat \<Rightarrow> rule list \<Rightarrow> (nat \<Rightarrow> bool) \<Rightarrow> (nat \<Rightarrow> bool) option" where
  "lambda_loop 0 rules lam = None"
| "lambda_loop (Suc fuel) rules lam =
    (case lambda_pass rules (lam, False) of
       (lam', progress) \<Rightarrow> if progress then lambda_loop fuel rules lam' else Some lam')"

text \<open>
  The second loop: the scan of one right-hand side, the pass over the rules, and the
  passes repeated as long as \<^verbatim>\<open>progress\<close> is not zero.
\<close>

fun first_scan ::
  "lemon \<Rightarrow> (nat \<Rightarrow> bool) \<Rightarrow> nat \<Rightarrow> nat list \<Rightarrow> (nat \<Rightarrow> int set) \<times> int
   \<Rightarrow> (nat \<Rightarrow> int set) \<times> int" where
  "first_scan lemp lam s1 [] (fs, progress) = (fs, progress)"
| "first_scan lemp lam s1 (s2 # rhs) (fs, progress) =
    (if sym_type (lem_symbols lemp ! s2) = TERMINAL then
       (case SetAdd (fs s1) (sym_index (lem_symbols lemp ! s2)) of
          (s, added) \<Rightarrow> (fs(s1 := s), progress + (if added then 1 else 0)))
     else if s1 = s2 then
       (if \<not> lam s1 then (fs, progress) else first_scan lemp lam s1 rhs (fs, progress))
     else
       (case SetUnion (SetSize (lem_nterminal lemp)) (fs s1) (fs s2) of
          (s, changed) \<Rightarrow>
            if \<not> lam s2 then (fs(s1 := s), progress + (if changed then 1 else 0))
            else first_scan lemp lam s1 rhs
                   (fs(s1 := s), progress + (if changed then 1 else 0))))"

fun first_pass ::
  "lemon \<Rightarrow> (nat \<Rightarrow> bool) \<Rightarrow> rule list \<Rightarrow> (nat \<Rightarrow> int set) \<times> int
   \<Rightarrow> (nat \<Rightarrow> int set) \<times> int" where
  "first_pass lemp lam [] st = st"
| "first_pass lemp lam (rp # next) st =
    first_pass lemp lam next (first_scan lemp lam (rule_lhs rp) (rule_rhs rp) st)"

fun first_loop ::
  "nat \<Rightarrow> lemon \<Rightarrow> (nat \<Rightarrow> bool) \<Rightarrow> (nat \<Rightarrow> int set) \<Rightarrow> (nat \<Rightarrow> int set) option" where
  "first_loop 0 lemp lam fs = None"
| "first_loop (Suc fuel) lemp lam fs =
    (case first_pass lemp lam (lem_rule lemp) (fs, 0) of
       (fs', progress) \<Rightarrow> if progress \<noteq> 0 then first_loop fuel lemp lam fs' else Some fs')"

definition FindFirstSets ::
  "nat \<Rightarrow> lemon \<Rightarrow> ((nat \<Rightarrow> bool) \<times> (nat \<Rightarrow> int set)) option" where
  "FindFirstSets fuel lemp =
    (case lambda_loop fuel (lem_rule lemp) (\<lambda>s. False) of
       None \<Rightarrow> None
     | Some lam \<Rightarrow>
         (case first_loop fuel lemp lam (\<lambda>s. {}) of
            None \<Rightarrow> None
          | Some fs \<Rightarrow> Some (lam, fs)))"

text \<open>
  A grammar with a nullable nonterminal: \<^verbatim>\<open>c ::= b X\<close>, \<^verbatim>\<open>c ::= c Y\<close>, \<^verbatim>\<open>b ::= a a\<close>,
  \<^verbatim>\<open>a ::=\<close> and \<^verbatim>\<open>a ::= Y a\<close>.
\<close>

definition nullable_lemon :: lemon where
  "nullable_lemon =
    \<lparr>lem_symbols =
       [mk_symbol ''$'' 0 NONTERMINAL (- 1) UNK,
        mk_symbol ''X'' 1 TERMINAL (- 1) UNK,
        mk_symbol ''Y'' 2 TERMINAL (- 1) UNK,
        mk_symbol ''a'' 3 NONTERMINAL (- 1) UNK,
        mk_symbol ''b'' 4 NONTERMINAL (- 1) UNK,
        mk_symbol ''c'' 5 NONTERMINAL (- 1) UNK,
        mk_symbol ''error'' 6 NONTERMINAL (- 1) UNK,
        mk_symbol ''{default}'' 7 NONTERMINAL (- 1) UNK],
     lem_rule =
       [mk_rule 5 [4, 1] None 0, mk_rule 5 [5, 2] None 1, mk_rule 4 [3, 3] None 2,
        mk_rule 3 [] None 3, mk_rule 3 [2, 3] None 4],
     lem_nsymbol = 7, lem_nterminal = 3, lem_errorcnt = 0, lem_nconflict = 0,
     lem_errsym = Some 6\<rparr>"

text \<open>
  The conditions in the words of the specification.  A set of flags is closed when every
  rule with an all-nullable right-hand side has a nullable left-hand side; a family of
  sets is closed when the left-to-right scan of every rule holds of it: a terminal is in
  the set of the left-hand side and ends the scan, the left-hand side itself adds nothing
  and ends the scan unless it is nullable, another nonterminal has its set included and
  ends the scan unless it is nullable.  The least closed family is below every closed one.
\<close>

definition lambda_closed :: "rule list \<Rightarrow> (nat \<Rightarrow> bool) \<Rightarrow> bool" where
  "lambda_closed rules L =
    (\<forall>rp \<in> set rules. (\<forall>s \<in> set (rule_rhs rp). L s) \<longrightarrow> L (rule_lhs rp))"

definition least_lambda :: "rule list \<Rightarrow> (nat \<Rightarrow> bool) \<Rightarrow> bool" where
  "least_lambda rules lam =
    (lambda_closed rules lam \<and> (\<forall>L. lambda_closed rules L \<longrightarrow> (\<forall>s. lam s \<longrightarrow> L s)))"

fun first_holds :: "lemon \<Rightarrow> (nat \<Rightarrow> bool) \<Rightarrow> (nat \<Rightarrow> int set) \<Rightarrow> nat \<Rightarrow> nat list \<Rightarrow> bool" where
  "first_holds lemp lam F A [] = True"
| "first_holds lemp lam F A (X # rhs) =
    (if sym_type (lem_symbols lemp ! X) = TERMINAL then sym_index (lem_symbols lemp ! X) \<in> F A
     else if X = A then (lam A \<longrightarrow> first_holds lemp lam F A rhs)
     else F X \<subseteq> F A \<and> (lam X \<longrightarrow> first_holds lemp lam F A rhs))"

definition first_closed :: "lemon \<Rightarrow> (nat \<Rightarrow> bool) \<Rightarrow> (nat \<Rightarrow> int set) \<Rightarrow> bool" where
  "first_closed lemp lam F =
    (\<forall>rp \<in> set (lem_rule lemp). first_holds lemp lam F (rule_lhs rp) (rule_rhs rp))"

definition least_first :: "lemon \<Rightarrow> (nat \<Rightarrow> bool) \<Rightarrow> (nat \<Rightarrow> int set) \<Rightarrow> bool" where
  "least_first lemp lam fs =
    (first_closed lemp lam fs \<and> (\<forall>F. first_closed lemp lam F \<longrightarrow> (\<forall>s. fs s \<subseteq> F s)))"

text \<open>
  \<^verbatim>\<open>SetAdd\<close> writes at the index of the terminal, whatever it is: the terminals of the
  right-hand sides have to be elements of the sets.
\<close>

definition terminals_in_range :: "lemon \<Rightarrow> bool" where
  "terminals_in_range lemp =
    list_all (\<lambda>rp. list_all (\<lambda>s. sym_type (lem_symbols lemp ! s) = TERMINAL \<longrightarrow>
                               0 \<le> sym_index (lem_symbols lemp ! s)
                               \<and> sym_index (lem_symbols lemp ! s) < SetSize (lem_nterminal lemp))
                      (rule_rhs rp))
      (lem_rule lemp)"

subsection \<open>The nullable flags\<close>

lemma lambda_scan_iff: "lambda_scan lam rhs \<longleftrightarrow> (\<forall>s \<in> set rhs. lam s)"
  by (induction rhs) auto

lemma lambda_pass_mono:
  "lambda_pass rs (lam, p) = (lam', p') \<Longrightarrow> (\<forall>s. lam s \<longrightarrow> lam' s) \<and> (p \<longrightarrow> p')"
proof (induction rs arbitrary: lam p)
  case Nil
  then show ?case by simp
next
  case (Cons rp rs)
  show ?case
  proof (cases "\<not> lam (rule_lhs rp) \<and> lambda_scan lam (rule_rhs rp)")
    case True
    with Cons.prems have "lambda_pass rs (lam(rule_lhs rp := True), True) = (lam', p')" by simp
    from Cons.IH [OF this] show ?thesis by auto
  next
    case False
    with Cons.prems have "lambda_pass rs (lam, p) = (lam', p')"
      by (auto split: if_splits)
    from Cons.IH [OF this] show ?thesis .
  qed
qed

lemma lambda_pass_sound:
  assumes "lambda_pass rs (lam, p) = (lam', p')" and "set rs \<subseteq> set rules"
    and "lambda_closed rules L" and "\<forall>s. lam s \<longrightarrow> L s"
  shows "\<forall>s. lam' s \<longrightarrow> L s"
  using assms
proof (induction rs arbitrary: lam p)
  case Nil
  then show ?case by simp
next
  case (Cons rp rs)
  show ?case
  proof (cases "\<not> lam (rule_lhs rp) \<and> lambda_scan lam (rule_rhs rp)")
    case True
    with Cons.prems(1) have r: "lambda_pass rs (lam(rule_lhs rp := True), True) = (lam', p')"
      by simp
    have "\<forall>s \<in> set (rule_rhs rp). L s"
      using True Cons.prems(4) by (simp add: lambda_scan_iff)
    moreover have "rp \<in> set rules" using Cons.prems(2) by simp
    ultimately have "L (rule_lhs rp)" using Cons.prems(3) by (simp add: lambda_closed_def)
    then have "\<forall>s. (lam(rule_lhs rp := True)) s \<longrightarrow> L s" using Cons.prems(4) by simp
    with Cons.IH [OF r _ Cons.prems(3)] Cons.prems(2) show ?thesis by simp
  next
    case False
    with Cons.prems(1) have "lambda_pass rs (lam, p) = (lam', p')"
      by (auto split: if_splits)
    with Cons.IH [OF this _ Cons.prems(3,4)] Cons.prems(2) show ?thesis by simp
  qed
qed

lemma lambda_pass_fixed:
  assumes "lambda_pass rs (lam, False) = (lam', False)"
  shows "lam' = lam \<and> (\<forall>rp \<in> set rs. (\<forall>s \<in> set (rule_rhs rp). lam s) \<longrightarrow> lam (rule_lhs rp))"
  using assms
proof (induction rs)
  case Nil
  then show ?case by simp
next
  case (Cons rp rs)
  show ?case
  proof (cases "\<not> lam (rule_lhs rp) \<and> lambda_scan lam (rule_rhs rp)")
    case True
    with Cons.prems have "lambda_pass rs (lam(rule_lhs rp := True), True) = (lam', False)"
      by simp
    from lambda_pass_mono [OF this] show ?thesis by simp
  next
    case False
    with Cons.prems have "lambda_pass rs (lam, False) = (lam', False)"
      by (auto split: if_splits)
    from Cons.IH [OF this] False show ?thesis by (auto simp add: lambda_scan_iff)
  qed
qed

lemma lambda_pass_progress:
  assumes "lambda_pass rs (lam, p) = (lam', True)" and "\<not> p"
  shows "\<exists>rp \<in> set rs. \<not> lam (rule_lhs rp) \<and> lam' (rule_lhs rp)"
  using assms
proof (induction rs arbitrary: lam)
  case Nil
  then show ?case by simp
next
  case (Cons rp rs)
  show ?case
  proof (cases "\<not> lam (rule_lhs rp) \<and> lambda_scan lam (rule_rhs rp)")
    case True
    with Cons.prems have "lambda_pass rs (lam(rule_lhs rp := True), True) = (lam', True)"
      by simp
    from lambda_pass_mono [OF this] True show ?thesis by auto
  next
    case False
    with Cons.prems have r: "lambda_pass rs (lam, p) = (lam', True)"
      by (auto split: if_splits)
    from Cons.IH [OF r Cons.prems(2)] show ?thesis by auto
  qed
qed

definition lambda_todo :: "rule list \<Rightarrow> (nat \<Rightarrow> bool) \<Rightarrow> nat set" where
  "lambda_todo rules lam = {s \<in> rule_lhs ` set rules. \<not> lam s}"

lemma lambda_loop_partial:
  assumes "lambda_loop fuel rules lam = Some lam'"
    and "\<forall>L. lambda_closed rules L \<longrightarrow> (\<forall>s. lam s \<longrightarrow> L s)"
  shows "least_lambda rules lam'"
  using assms
proof (induction fuel arbitrary: lam)
  case 0
  then show ?case by simp
next
  case (Suc fuel)
  obtain l p where lp: "lambda_pass rules (lam, False) = (l, p)"
    by (cases "lambda_pass rules (lam, False)") auto
  have sound: "\<forall>L. lambda_closed rules L \<longrightarrow> (\<forall>s. l s \<longrightarrow> L s)"
    using lambda_pass_sound [OF lp subset_refl] Suc.prems(2) by blast
  show ?case
  proof (cases p)
    case True
    with Suc.prems(1) lp have "lambda_loop fuel rules l = Some lam'" by simp
    from Suc.IH [OF this sound] show ?thesis .
  next
    case False
    with Suc.prems(1) lp have e: "lam' = l" by simp
    from lambda_pass_fixed [of rules lam l] lp False
    have "l = lam" "lambda_closed rules lam" by (simp_all add: lambda_closed_def)
    then show ?thesis using e sound by (simp add: least_lambda_def)
  qed
qed

lemma lambda_loop_total:
  "card (lambda_todo rules lam) < fuel \<Longrightarrow> \<exists>lam'. lambda_loop fuel rules lam = Some lam'"
proof (induction fuel arbitrary: lam)
  case 0
  then show ?case by simp
next
  case (Suc fuel)
  obtain l p where lp: "lambda_pass rules (lam, False) = (l, p)"
    by (cases "lambda_pass rules (lam, False)") auto
  show ?case
  proof (cases p)
    case False
    then show ?thesis using lp by simp
  next
    case True
    from lambda_pass_progress [of rules lam False l] lp True
    obtain rp where rp: "rp \<in> set rules" "\<not> lam (rule_lhs rp)" "l (rule_lhs rp)" by auto
    have mono: "\<forall>s. lam s \<longrightarrow> l s" using lambda_pass_mono [OF lp] by simp
    have fin: "finite (lambda_todo rules lam)" by (simp add: lambda_todo_def)
    have "lambda_todo rules l \<subset> lambda_todo rules lam"
      using rp mono by (auto simp add: lambda_todo_def)
    then have "card (lambda_todo rules l) < card (lambda_todo rules lam)"
      using fin by (simp add: psubset_card_mono)
    then have "card (lambda_todo rules l) < fuel" using Suc.prems by simp
    from Suc.IH [OF this] show ?thesis using lp True by simp
  qed
qed

subsection \<open>The first sets\<close>

definition bounded_sets :: "int \<Rightarrow> (nat \<Rightarrow> int set) \<Rightarrow> bool" where
  "bounded_sets sz fs = (\<forall>s e. e \<in> fs s \<longrightarrow> 0 \<le> e \<and> e < sz)"

definition rhs_in_range :: "lemon \<Rightarrow> nat list \<Rightarrow> bool" where
  "rhs_in_range lemp rhs =
    (\<forall>s \<in> set rhs. sym_type (lem_symbols lemp ! s) = TERMINAL \<longrightarrow>
        0 \<le> sym_index (lem_symbols lemp ! s)
        \<and> sym_index (lem_symbols lemp ! s) < SetSize (lem_nterminal lemp))"

lemma SetUnion_bounded:
  "bounded_sets sz fs \<Longrightarrow> SetUnion sz (fs s1) (fs s2) = (fs s1 \<union> fs s2, \<not> fs s2 \<subseteq> fs s1)"
  by (auto simp add: SetUnion_def bounded_sets_def)

lemma first_scan_props:
  assumes "first_scan lemp lam s1 rhs (fs, p) = (fs', p')"
    and "bounded_sets (SetSize (lem_nterminal lemp)) fs" and "rhs_in_range lemp rhs"
  shows "p \<le> p' \<and> (\<forall>s. fs s \<subseteq> fs' s) \<and> (\<forall>s. s \<noteq> s1 \<longrightarrow> fs' s = fs s)
         \<and> bounded_sets (SetSize (lem_nterminal lemp)) fs'
         \<and> (p' = p \<longrightarrow> fs' = fs \<and> first_holds lemp lam fs s1 rhs)
         \<and> (p' \<noteq> p \<longrightarrow> fs s1 \<subset> fs' s1)"
  using assms
proof (induction rhs arbitrary: fs p)
  case Nil
  then show ?case by simp
next
  case (Cons s2 rhs)
  let ?sz = "SetSize (lem_nterminal lemp)"
  have rng: "rhs_in_range lemp rhs" using Cons.prems(3) by (simp add: rhs_in_range_def)
  show ?case
  proof (cases "sym_type (lem_symbols lemp ! s2) = TERMINAL")
    case True
    let ?e = "sym_index (lem_symbols lemp ! s2)"
    have e: "0 \<le> ?e \<and> ?e < ?sz" using True Cons.prems(3) by (simp add: rhs_in_range_def)
    from True Cons.prems(1)
    have r: "fs' = fs(s1 := insert ?e (fs s1))" "p' = p + (if ?e \<notin> fs s1 then 1 else 0)"
      by (simp_all add: SetAdd_def)
    have "bounded_sets ?sz fs'" using Cons.prems(2) e r(1) by (auto simp add: bounded_sets_def)
    moreover have "p' = p \<longrightarrow> fs' = fs \<and> first_holds lemp lam fs s1 (s2 # rhs)"
      using r True by (auto simp add: insert_absorb)
    moreover have "p' \<noteq> p \<longrightarrow> fs s1 \<subset> fs' s1" using r by (auto split: if_splits)
    moreover have "p \<le> p'" using r(2) by simp
    moreover have "\<forall>s. fs s \<subseteq> fs' s" using r(1) by auto
    moreover have "\<forall>s. s \<noteq> s1 \<longrightarrow> fs' s = fs s" using r(1) by simp
    ultimately show ?thesis by blast
  next
    case nt: False
    show ?thesis
    proof (cases "s1 = s2")
      case True
      show ?thesis
      proof (cases "lam s1")
        case False
        with nt True Cons.prems(1) have "fs' = fs" "p' = p" by simp_all
        then show ?thesis using nt True False Cons.prems(2) by simp
      next
        case lam: True
        with nt True Cons.prems(1) have "first_scan lemp lam s1 rhs (fs, p) = (fs', p')"
          by simp
        from Cons.IH [OF this Cons.prems(2) rng] show ?thesis using nt True lam by simp
      qed
    next
      case False
      let ?fs1 = "fs(s1 := fs s1 \<union> fs s2)"
      let ?p1 = "p + (if \<not> fs s2 \<subseteq> fs s1 then 1 else 0)"
      have u: "SetUnion ?sz (fs s1) (fs s2) = (fs s1 \<union> fs s2, \<not> fs s2 \<subseteq> fs s1)"
        using Cons.prems(2) by (rule SetUnion_bounded)
      have b1: "bounded_sets ?sz ?fs1" using Cons.prems(2) by (auto simp add: bounded_sets_def)
      have same: "?p1 = p \<longrightarrow> ?fs1 = fs \<and> fs s2 \<subseteq> fs s1"
        by (auto simp add: Un_absorb2 split: if_splits)
      have strict: "?p1 \<noteq> p \<longrightarrow> fs s1 \<subset> ?fs1 s1" by (auto split: if_splits)
      show ?thesis
      proof (cases "lam s2")
        case False
        with nt \<open>s1 \<noteq> s2\<close> Cons.prems(1) u have r: "fs' = ?fs1" "p' = ?p1" by simp_all
        have "p \<le> ?p1" by simp
        moreover have "\<forall>s. fs s \<subseteq> ?fs1 s" by auto
        moreover have "\<forall>s. s \<noteq> s1 \<longrightarrow> ?fs1 s = fs s" by simp
        moreover have "?p1 = p \<longrightarrow> ?fs1 = fs \<and> first_holds lemp lam fs s1 (s2 # rhs)"
          using same nt \<open>s1 \<noteq> s2\<close> False by simp
        ultimately show ?thesis
          unfolding r using b1 strict by blast
      next
        case True
        with nt \<open>s1 \<noteq> s2\<close> Cons.prems(1) u
        have "first_scan lemp lam s1 rhs (?fs1, ?p1) = (fs', p')" by simp
        from Cons.IH [OF this b1 rng]
        have ih: "?p1 \<le> p'" "\<forall>s. ?fs1 s \<subseteq> fs' s" "\<forall>s. s \<noteq> s1 \<longrightarrow> fs' s = ?fs1 s"
          "bounded_sets ?sz fs'" "p' = ?p1 \<longrightarrow> fs' = ?fs1 \<and> first_holds lemp lam ?fs1 s1 rhs"
          "p' \<noteq> ?p1 \<longrightarrow> ?fs1 s1 \<subset> fs' s1"
          by blast+
        have le: "p \<le> ?p1" by simp
        have "p \<le> p'" using ih(1) le by linarith
        moreover have "\<forall>s. fs s \<subseteq> fs' s" using ih(2) by (auto split: if_splits)
        moreover have "\<forall>s. s \<noteq> s1 \<longrightarrow> fs' s = fs s" using ih(3) by simp
        moreover have "p' = p \<longrightarrow> fs' = fs \<and> first_holds lemp lam fs s1 (s2 # rhs)"
        proof
          assume pp: "p' = p"
          then have "?p1 = p" "p' = ?p1" using ih(1) le by linarith+
          then show "fs' = fs \<and> first_holds lemp lam fs s1 (s2 # rhs)"
            using same ih(5) nt \<open>s1 \<noteq> s2\<close> by simp
        qed
        moreover have "p' \<noteq> p \<longrightarrow> fs s1 \<subset> fs' s1"
        proof
          assume "p' \<noteq> p"
          then consider "?p1 \<noteq> p" | "p' \<noteq> ?p1" by fastforce
          then show "fs s1 \<subset> fs' s1"
          proof cases
            case 1
            then have "fs s1 \<subset> ?fs1 s1" using strict by blast
            moreover have "?fs1 s1 \<subseteq> fs' s1" using ih(2) by blast
            ultimately show ?thesis by blast
          next
            case 2
            then have "?fs1 s1 \<subset> fs' s1" using ih(6) by blast
            moreover have "fs s1 \<subseteq> ?fs1 s1" by simp
            ultimately show ?thesis by blast
          qed
        qed
        ultimately show ?thesis using ih(4) by simp
      qed
    qed
  qed
qed

lemma first_scan_sound:
  assumes "first_scan lemp lam s1 rhs (fs, p) = (fs', p')"
    and "bounded_sets (SetSize (lem_nterminal lemp)) fs"
    and "\<forall>s. fs s \<subseteq> F s" and "first_holds lemp lam F s1 rhs"
  shows "\<forall>s. fs' s \<subseteq> F s"
  using assms
proof (induction rhs arbitrary: fs p)
  case Nil
  then show ?case by simp
next
  case (Cons s2 rhs)
  let ?sz = "SetSize (lem_nterminal lemp)"
  show ?case
  proof (cases "sym_type (lem_symbols lemp ! s2) = TERMINAL")
    case True
    with Cons.prems(1) have "fs' = fs(s1 := insert (sym_index (lem_symbols lemp ! s2)) (fs s1))"
      by (simp add: SetAdd_def)
    then show ?thesis using True Cons.prems(3,4) by auto
  next
    case nt: False
    show ?thesis
    proof (cases "s1 = s2")
      case True
      show ?thesis
      proof (cases "lam s1")
        case False
        with nt True Cons.prems(1) have "fs' = fs" by simp
        then show ?thesis using Cons.prems(3) by simp
      next
        case lam: True
        with nt True Cons.prems(1) have r: "first_scan lemp lam s1 rhs (fs, p) = (fs', p')"
          by simp
        have "first_holds lemp lam F s1 rhs" using Cons.prems(4) nt True lam by simp
        from Cons.IH [OF r Cons.prems(2,3) this] show ?thesis .
      qed
    next
      case False
      let ?fs1 = "fs(s1 := fs s1 \<union> fs s2)"
      let ?p1 = "p + (if \<not> fs s2 \<subseteq> fs s1 then 1 else 0)"
      have u: "SetUnion ?sz (fs s1) (fs s2) = (fs s1 \<union> fs s2, \<not> fs s2 \<subseteq> fs s1)"
        using Cons.prems(2) by (rule SetUnion_bounded)
      have b1: "bounded_sets ?sz ?fs1" using Cons.prems(2) by (auto simp add: bounded_sets_def)
      have sub: "F s2 \<subseteq> F s1" using Cons.prems(4) nt False by simp
      have le1: "\<forall>s. ?fs1 s \<subseteq> F s" using Cons.prems(3) sub by auto
      show ?thesis
      proof (cases "lam s2")
        case False
        with nt \<open>s1 \<noteq> s2\<close> Cons.prems(1) u have "fs' = ?fs1" by simp
        then show ?thesis using le1 by simp
      next
        case True
        with nt \<open>s1 \<noteq> s2\<close> Cons.prems(1) u
        have r: "first_scan lemp lam s1 rhs (?fs1, ?p1) = (fs', p')" by simp
        have "first_holds lemp lam F s1 rhs" using Cons.prems(4) nt \<open>s1 \<noteq> s2\<close> True by simp
        from Cons.IH [OF r b1 le1 this] show ?thesis .
      qed
    qed
  qed
qed


definition rules_in_range :: "lemon \<Rightarrow> rule list \<Rightarrow> bool" where
  "rules_in_range lemp rs = (\<forall>rp \<in> set rs. rhs_in_range lemp (rule_rhs rp))"

lemma terminals_in_range_rules: "terminals_in_range lemp = rules_in_range lemp (lem_rule lemp)"
  by (simp add: terminals_in_range_def rules_in_range_def rhs_in_range_def list_all_iff)

lemma first_pass_props:
  assumes "first_pass lemp lam rs (fs, p) = (fs', p')"
    and "bounded_sets (SetSize (lem_nterminal lemp)) fs" and "rules_in_range lemp rs"
  shows "p \<le> p' \<and> (\<forall>s. fs s \<subseteq> fs' s) \<and> (\<forall>s. s \<notin> rule_lhs ` set rs \<longrightarrow> fs' s = fs s)
         \<and> bounded_sets (SetSize (lem_nterminal lemp)) fs'
         \<and> (p' = p \<longrightarrow> fs' = fs
               \<and> (\<forall>rp \<in> set rs. first_holds lemp lam fs (rule_lhs rp) (rule_rhs rp)))
         \<and> (p' \<noteq> p \<longrightarrow> (\<exists>s \<in> rule_lhs ` set rs. fs s \<subset> fs' s))"
  using assms
proof (induction rs arbitrary: fs p)
  case Nil
  then show ?case by simp
next
  case (Cons rp rs)
  let ?sz = "SetSize (lem_nterminal lemp)"
  obtain fs1 p1 where s: "first_scan lemp lam (rule_lhs rp) (rule_rhs rp) (fs, p) = (fs1, p1)"
    by (cases "first_scan lemp lam (rule_lhs rp) (rule_rhs rp) (fs, p)") blast
  have rng: "rhs_in_range lemp (rule_rhs rp)" "rules_in_range lemp rs"
    using Cons.prems(3) by (simp_all add: rules_in_range_def)
  from first_scan_props [OF s Cons.prems(2) rng(1)]
  have sc: "p \<le> p1" "\<forall>s. fs s \<subseteq> fs1 s" "\<forall>s. s \<noteq> rule_lhs rp \<longrightarrow> fs1 s = fs s"
    "bounded_sets ?sz fs1"
    "p1 = p \<longrightarrow> fs1 = fs \<and> first_holds lemp lam fs (rule_lhs rp) (rule_rhs rp)"
    "p1 \<noteq> p \<longrightarrow> fs (rule_lhs rp) \<subset> fs1 (rule_lhs rp)"
    by blast+
  have r: "first_pass lemp lam rs (fs1, p1) = (fs', p')" using Cons.prems(1) s by simp
  from Cons.IH [OF r sc(4) rng(2)]
  have ih: "p1 \<le> p'" "\<forall>s. fs1 s \<subseteq> fs' s" "\<forall>s. s \<notin> rule_lhs ` set rs \<longrightarrow> fs' s = fs1 s"
    "bounded_sets ?sz fs'"
    "p' = p1 \<longrightarrow> fs' = fs1 \<and> (\<forall>rp \<in> set rs. first_holds lemp lam fs1 (rule_lhs rp) (rule_rhs rp))"
    "p' \<noteq> p1 \<longrightarrow> (\<exists>s \<in> rule_lhs ` set rs. fs1 s \<subset> fs' s)"
    by blast+
  have "p \<le> p'" using sc(1) ih(1) by linarith
  moreover have "\<forall>s. fs s \<subseteq> fs' s" using sc(2) ih(2) by blast
  moreover have "\<forall>s. s \<notin> rule_lhs ` set (rp # rs) \<longrightarrow> fs' s = fs s"
    using sc(3) ih(3) by simp
  moreover have "p' = p \<longrightarrow> fs' = fs
      \<and> (\<forall>rp \<in> set (rp # rs). first_holds lemp lam fs (rule_lhs rp) (rule_rhs rp))"
  proof
    assume "p' = p"
    then have "p1 = p" "p' = p1" using sc(1) ih(1) by linarith+
    then show "fs' = fs
      \<and> (\<forall>rp \<in> set (rp # rs). first_holds lemp lam fs (rule_lhs rp) (rule_rhs rp))"
      using sc(5) ih(5) by simp
  qed
  moreover have "p' \<noteq> p \<longrightarrow> (\<exists>s \<in> rule_lhs ` set (rp # rs). fs s \<subset> fs' s)"
  proof
    assume "p' \<noteq> p"
    then consider "p1 \<noteq> p" | "p' \<noteq> p1" by fastforce
    then show "\<exists>s \<in> rule_lhs ` set (rp # rs). fs s \<subset> fs' s"
    proof cases
      case 1
      then have "fs (rule_lhs rp) \<subset> fs1 (rule_lhs rp)" using sc(6) by blast
      moreover have "fs1 (rule_lhs rp) \<subseteq> fs' (rule_lhs rp)" using ih(2) by blast
      ultimately have "fs (rule_lhs rp) \<subset> fs' (rule_lhs rp)" by blast
      then show ?thesis by simp
    next
      case 2
      then obtain s where s: "s \<in> rule_lhs ` set rs" "fs1 s \<subset> fs' s" using ih(6) by blast
      moreover have "fs s \<subseteq> fs1 s" using sc(2) by blast
      ultimately have "fs s \<subset> fs' s" by blast
      then show ?thesis using s(1) by auto
    qed
  qed
  ultimately show ?case using ih(4) by blast
qed

lemma first_pass_sound:
  assumes "first_pass lemp lam rs (fs, p) = (fs', p')"
    and "bounded_sets (SetSize (lem_nterminal lemp)) fs" and "rules_in_range lemp rs"
    and "\<forall>s. fs s \<subseteq> F s"
    and "\<forall>rp \<in> set rs. first_holds lemp lam F (rule_lhs rp) (rule_rhs rp)"
  shows "\<forall>s. fs' s \<subseteq> F s"
  using assms
proof (induction rs arbitrary: fs p)
  case Nil
  then show ?case by simp
next
  case (Cons rp rs)
  obtain fs1 p1 where s: "first_scan lemp lam (rule_lhs rp) (rule_rhs rp) (fs, p) = (fs1, p1)"
    by (cases "first_scan lemp lam (rule_lhs rp) (rule_rhs rp) (fs, p)") blast
  have rng: "rhs_in_range lemp (rule_rhs rp)" "rules_in_range lemp rs"
    using Cons.prems(3) by (simp_all add: rules_in_range_def)
  have b1: "bounded_sets (SetSize (lem_nterminal lemp)) fs1"
    using first_scan_props [OF s Cons.prems(2) rng(1)] by blast
  have h: "first_holds lemp lam F (rule_lhs rp) (rule_rhs rp)" using Cons.prems(5) by simp
  have le1: "\<forall>s. fs1 s \<subseteq> F s" using first_scan_sound [OF s Cons.prems(2,4) h] .
  have r: "first_pass lemp lam rs (fs1, p1) = (fs', p')" using Cons.prems(1) s by simp
  have "\<forall>rp \<in> set rs. first_holds lemp lam F (rule_lhs rp) (rule_rhs rp)"
    using Cons.prems(5) by simp
  from Cons.IH [OF r b1 rng(2) le1 this] show ?case .
qed

definition first_todo :: "lemon \<Rightarrow> (nat \<Rightarrow> int set) \<Rightarrow> (nat \<times> int) set" where
  "first_todo lemp fs =
    {(s, e). s \<in> rule_lhs ` set (lem_rule lemp) \<and> 0 \<le> e \<and> e < SetSize (lem_nterminal lemp)
             \<and> e \<notin> fs s}"

lemma finite_first_todo: "finite (first_todo lemp fs)"
proof (rule finite_subset)
  show "first_todo lemp fs
        \<subseteq> (rule_lhs ` set (lem_rule lemp)) \<times> {0 ..< SetSize (lem_nterminal lemp)}"
    by (auto simp add: first_todo_def)
  show "finite ((rule_lhs ` set (lem_rule lemp)) \<times> {0 ..< SetSize (lem_nterminal lemp)})"
    by simp
qed

lemma first_pass_todo:
  assumes "first_pass lemp lam (lem_rule lemp) (fs, 0) = (fs', p')" and "p' \<noteq> 0"
    and "bounded_sets (SetSize (lem_nterminal lemp)) fs" and "terminals_in_range lemp"
  shows "card (first_todo lemp fs') < card (first_todo lemp fs)"
proof -
  have rng: "rules_in_range lemp (lem_rule lemp)"
    using assms(4) by (simp add: terminals_in_range_rules)
  from first_pass_props [OF assms(1,3) rng] assms(2)
  have mono: "\<forall>s. fs s \<subseteq> fs' s" and b: "bounded_sets (SetSize (lem_nterminal lemp)) fs'"
    and ex: "\<exists>s \<in> rule_lhs ` set (lem_rule lemp). fs s \<subset> fs' s"
    by blast+
  from ex obtain s e where se: "s \<in> rule_lhs ` set (lem_rule lemp)" "e \<in> fs' s" "e \<notin> fs s"
    by blast
  have e: "0 \<le> e \<and> e < SetSize (lem_nterminal lemp)"
    using b se(2) by (simp add: bounded_sets_def)
  have "(s, e) \<in> first_todo lemp fs" "(s, e) \<notin> first_todo lemp fs'"
    using se e by (simp_all add: first_todo_def)
  moreover have "first_todo lemp fs' \<subseteq> first_todo lemp fs"
    using mono by (auto simp add: first_todo_def)
  ultimately have "first_todo lemp fs' \<subset> first_todo lemp fs" by blast
  then show ?thesis by (rule psubset_card_mono [OF finite_first_todo])
qed

lemma first_loop_partial:
  assumes "first_loop fuel lemp lam fs = Some fs'"
    and "bounded_sets (SetSize (lem_nterminal lemp)) fs" and "terminals_in_range lemp"
    and "\<forall>F. first_closed lemp lam F \<longrightarrow> (\<forall>s. fs s \<subseteq> F s)"
  shows "least_first lemp lam fs' \<and> first_pass lemp lam (lem_rule lemp) (fs', 0) = (fs', 0)
         \<and> bounded_sets (SetSize (lem_nterminal lemp)) fs'"
  using assms
proof (induction fuel arbitrary: fs)
  case 0
  then show ?case by simp
next
  case (Suc fuel)
  have rng: "rules_in_range lemp (lem_rule lemp)"
    using Suc.prems(3) by (simp add: terminals_in_range_rules)
  obtain fs1 p1 where s: "first_pass lemp lam (lem_rule lemp) (fs, 0) = (fs1, p1)"
    by (cases "first_pass lemp lam (lem_rule lemp) (fs, 0)") blast
  have props: "bounded_sets (SetSize (lem_nterminal lemp)) fs1"
    "p1 = 0 \<longrightarrow> fs1 = fs
       \<and> (\<forall>rp \<in> set (lem_rule lemp). first_holds lemp lam fs (rule_lhs rp) (rule_rhs rp))"
    using first_pass_props [OF s Suc.prems(2) rng] by blast+
  have le1: "\<forall>F. first_closed lemp lam F \<longrightarrow> (\<forall>s. fs1 s \<subseteq> F s)"
  proof (rule allI, rule impI)
    fix F assume F: "first_closed lemp lam F"
    then have "\<forall>s. fs s \<subseteq> F s" using Suc.prems(4) by blast
    moreover have "\<forall>rp \<in> set (lem_rule lemp). first_holds lemp lam F (rule_lhs rp) (rule_rhs rp)"
      using F by (simp add: first_closed_def)
    ultimately show "\<forall>s. fs1 s \<subseteq> F s"
      using first_pass_sound [OF s Suc.prems(2) rng] by blast
  qed
  show ?case
  proof (cases "p1 = 0")
    case True
    then have eq: "fs' = fs1" "fs1 = fs" using Suc.prems(1) s props(2) by simp_all
    have "first_closed lemp lam fs" using True props(2) by (simp add: first_closed_def)
    then have "least_first lemp lam fs" using Suc.prems(4) by (simp add: least_first_def)
    then show ?thesis using eq s True Suc.prems(2) by simp
  next
    case False
    then have "first_loop fuel lemp lam fs1 = Some fs'" using Suc.prems(1) s by simp
    from Suc.IH [OF this props(1) Suc.prems(3) le1] show ?thesis .
  qed
qed

lemma first_loop_total:
  assumes "card (first_todo lemp fs) < fuel"
    and "bounded_sets (SetSize (lem_nterminal lemp)) fs" and "terminals_in_range lemp"
  shows "\<exists>fs'. first_loop fuel lemp lam fs = Some fs'"
  using assms
proof (induction fuel arbitrary: fs)
  case 0
  then show ?case by simp
next
  case (Suc fuel)
  have rng: "rules_in_range lemp (lem_rule lemp)"
    using Suc.prems(3) by (simp add: terminals_in_range_rules)
  obtain fs1 p1 where s: "first_pass lemp lam (lem_rule lemp) (fs, 0) = (fs1, p1)"
    by (cases "first_pass lemp lam (lem_rule lemp) (fs, 0)") blast
  have b1: "bounded_sets (SetSize (lem_nterminal lemp)) fs1"
    using first_pass_props [OF s Suc.prems(2) rng] by blast
  show ?case
  proof (cases "p1 = 0")
    case True
    then show ?thesis using s by simp
  next
    case False
    have "card (first_todo lemp fs1) < card (first_todo lemp fs)"
      using first_pass_todo [OF s False Suc.prems(2,3)] .
    then have "card (first_todo lemp fs1) < fuel" using Suc.prems(1) by linarith
    from Suc.IH [OF this b1 Suc.prems(3)] show ?thesis using s False by simp
  qed
qed


lemma bounded_sets_empty: "bounded_sets sz (\<lambda>s. {})"
  by (simp add: bounded_sets_def)

lemma FindFirstSets_returns:
  assumes "terminals_in_range lemp"
    and "card (lambda_todo (lem_rule lemp) (\<lambda>s. False)) < fuel"
    and "card (first_todo lemp (\<lambda>s. {})) < fuel"
  shows "\<exists>lam fs. FindFirstSets fuel lemp = Some (lam, fs)"
proof -
  obtain lam where l: "lambda_loop fuel (lem_rule lemp) (\<lambda>s. False) = Some lam"
    using lambda_loop_total [OF assms(2)] by blast
  obtain fs where f: "first_loop fuel lemp lam (\<lambda>s. {}) = Some fs"
    using first_loop_total [OF assms(3) bounded_sets_empty assms(1)] by blast
  show ?thesis using l f by (simp add: FindFirstSets_def)
qed

lemma FindFirstSets_partial:
  assumes "terminals_in_range lemp" and "FindFirstSets fuel lemp = Some (lam, fs)"
  shows "least_lambda (lem_rule lemp) lam \<and> least_first lemp lam fs
         \<and> first_pass lemp lam (lem_rule lemp) (fs, 0) = (fs, 0)
         \<and> bounded_sets (SetSize (lem_nterminal lemp)) fs"
proof -
  from assms(2) have l: "lambda_loop fuel (lem_rule lemp) (\<lambda>s. False) = Some lam"
    and f: "first_loop fuel lemp lam (\<lambda>s. {}) = Some fs"
    by (auto simp add: FindFirstSets_def split: option.splits)
  have "least_lambda (lem_rule lemp) lam" using lambda_loop_partial [OF l] by simp
  moreover have "least_first lemp lam fs \<and> first_pass lemp lam (lem_rule lemp) (fs, 0) = (fs, 0)
         \<and> bounded_sets (SetSize (lem_nterminal lemp)) fs"
    using first_loop_partial [OF f bounded_sets_empty assms(1)] by simp
  ultimately show ?thesis by blast
qed

text \<open>
  Claim C4.  On a grammar whose terminals are elements of the sets, \<^verbatim>\<open>FindFirstSets\<close>
  returns, and whenever it returns: the flags are the least closed ones, the first sets
  are the least family closed under the scan of every rule with these flags, one more
  pass over the rules adds nothing to any set and leaves \<^verbatim>\<open>progress\<close> at zero, and the
  sets hold elements below \<^verbatim>\<open>size\<close> only.
\<close>

theorem FindFirstSets_least_fixed_point:
  assumes "terminals_in_range lemp"
  shows "(\<exists>fuel lam fs. FindFirstSets fuel lemp = Some (lam, fs))
       \<and> (\<forall>fuel lam fs. FindFirstSets fuel lemp = Some (lam, fs) \<longrightarrow>
             least_lambda (lem_rule lemp) lam \<and> least_first lemp lam fs
             \<and> first_pass lemp lam (lem_rule lemp) (fs, 0) = (fs, 0)
             \<and> bounded_sets (SetSize (lem_nterminal lemp)) fs)"
proof
  let ?fuel = "Suc (max (card (lambda_todo (lem_rule lemp) (\<lambda>s. False)))
                        (card (first_todo lemp (\<lambda>s. {}))))"
  have "\<exists>lam fs. FindFirstSets ?fuel lemp = Some (lam, fs)"
    by (rule FindFirstSets_returns [OF assms]) simp_all
  then show "\<exists>fuel lam fs. FindFirstSets fuel lemp = Some (lam, fs)" by blast
next
  show "\<forall>fuel lam fs. FindFirstSets fuel lemp = Some (lam, fs) \<longrightarrow>
             least_lambda (lem_rule lemp) lam \<and> least_first lemp lam fs
             \<and> first_pass lemp lam (lem_rule lemp) (fs, 0) = (fs, 0)
             \<and> bounded_sets (SetSize (lem_nterminal lemp)) fs"
    using FindFirstSets_partial [OF assms] by blast
qed

text \<open>
  The theorem at the grammar above: \<^verbatim>\<open>a\<close> and \<^verbatim>\<open>b\<close> are nullable, \<^verbatim>\<open>c\<close> is not; \<^verbatim>\<open>Y\<close>
  begins \<^verbatim>\<open>a\<close> and \<^verbatim>\<open>b\<close>, and \<^verbatim>\<open>X\<close> and \<^verbatim>\<open>Y\<close> begin \<^verbatim>\<open>c\<close>.
\<close>

lemma nullable_lemon_eval:
  "terminals_in_range nullable_lemon
   \<and> (case FindFirstSets 5 nullable_lemon of
        None \<Rightarrow> False
      | Some (lam, fs) \<Rightarrow>
          map lam [0 ..< 8] = [False, False, False, True, True, False, False, False]
          \<and> map fs [0 ..< 8] = [{}, {}, {}, {2}, {2}, {1, 2}, {}, {}])"
  by code_simp

theorem FindFirstSets_least_fixed_point_witness:
  "terminals_in_range nullable_lemon
   \<and> (\<exists>lam fs. FindFirstSets 5 nullable_lemon = Some (lam, fs)
        \<and> map lam [0 ..< 8] = [False, False, False, True, True, False, False, False]
        \<and> map fs [0 ..< 8] = [{}, {}, {}, {2}, {2}, {1, 2}, {}, {}]
        \<and> least_lambda (lem_rule nullable_lemon) lam \<and> least_first nullable_lemon lam fs
        \<and> first_pass nullable_lemon lam (lem_rule nullable_lemon) (fs, 0) = (fs, 0))"
proof -
  have t: "terminals_in_range nullable_lemon" using nullable_lemon_eval by blast
  obtain lam fs where r: "FindFirstSets 5 nullable_lemon = Some (lam, fs)"
    and v: "map lam [0 ..< 8] = [False, False, False, True, True, False, False, False]"
      "map fs [0 ..< 8] = [{}, {}, {}, {2}, {2}, {1, 2}, {}, {}]"
    using nullable_lemon_eval by (auto split: option.splits)
  from FindFirstSets_least_fixed_point [OF t] r
  have p: "least_lambda (lem_rule nullable_lemon) lam" "least_first nullable_lemon lam fs"
    "first_pass nullable_lemon lam (lem_rule nullable_lemon) (fs, 0) = (fs, 0)"
    by blast+
  show ?thesis
    by (rule conjI [OF t], rule exI [of _ lam], rule exI [of _ fs]) (intro conjI r v p)
qed

end
